theory Spec2Isabelle
  imports Complex_Main "HOL-Library.Word" "HOL-Library.Sublist"
begin

section \<open>Aspect-ratio guide (ControlPanel.tsx, \<open>toggleGuide\<close>)\<close>

text \<open>
  \<^verbatim>\<open>export type AspectRatioGuide = 'none' | '9:16' | '4:5' | '1:1';\<close> (types.ts).
  The four string literals of the union type are the four constructors.
\<close>

datatype AspectRatioGuide = GuideNone | Guide9x16 | Guide4x5 | Guide1x1

text \<open>
  \<^verbatim>\<open>
  const toggleGuide = () => {
    if (activeGuide === 'none') onChangeGuide('9:16');
    else if (activeGuide === '9:16') onChangeGuide('4:5');
    else if (activeGuide === '4:5') onChangeGuide('1:1');
    else onChangeGuide('none');
  };\<close>
  The handler is rebuilt on every render from the \<open>activeGuide\<close> prop and the parent
  passes \<open>setActiveGuide\<close> as \<open>onChangeGuide\<close>; the function below maps the guide
  the handler reads to the guide it stores.
\<close>

definition toggleGuide :: "AspectRatioGuide \<Rightarrow> AspectRatioGuide" where
  "toggleGuide activeGuide =
     (if activeGuide = GuideNone then Guide9x16
      else if activeGuide = Guide9x16 then Guide4x5
      else if activeGuide = Guide4x5 then Guide1x1
      else GuideNone)"


section \<open>Chroma-key pass (LiveView.tsx, \<open>processFrame\<close>)\<close>

text \<open>
  \<open>frame.data\<close> is a \<open>Uint8ClampedArray\<close>: a flat buffer of bytes, four per pixel
  in the order red, green, blue, alpha.
\<close>

type_synonym byte = "8 word"

text \<open>
  Reading a typed array outside its bounds yields \<open>undefined\<close>; every comparison with
  \<open>undefined\<close> is false. A read is therefore an \<open>option\<close>.
\<close>

definition rd :: "byte list \<Rightarrow> nat \<Rightarrow> byte option" where
  "rd d k = (if k < length d then Some (d ! k) else None)"

text \<open>
  \<^verbatim>\<open>g > 100 && g > r * 1.5 && g > b * 1.5\<close> on numbers between 0 and 255. The products
  with \<open>1.5\<close> are exact in double precision (multiples of one half below 383), so the
  comparison is the one of the rationals.
\<close>

definition isGreen :: "byte \<Rightarrow> byte \<Rightarrow> byte \<Rightarrow> bool" where
  "isGreen r g b \<longleftrightarrow>
     100 < unat g
     \<and> rat_of_nat (unat r) * 1.5 < rat_of_nat (unat g)
     \<and> rat_of_nat (unat b) * 1.5 < rat_of_nat (unat g)"

text \<open>
  The body of the loop for pixel \<open>i\<close>. A write outside the bounds of a typed array is
  dropped, as \<open>list_update\<close> does.
\<close>

definition pixelStep :: "nat \<Rightarrow> byte list \<Rightarrow> byte list" where
  "pixelStep i d =
     (case (rd d (i * 4 + 0), rd d (i * 4 + 1), rd d (i * 4 + 2)) of
        (Some r, Some g, Some b) \<Rightarrow> if isGreen r g b then d[i * 4 + 3 := 0] else d
      | _ \<Rightarrow> d)"

lemma length_pixelStep [simp]: "length (pixelStep i d) = length d"
  by (simp add: pixelStep_def split: option.splits)

text \<open>
  \<^verbatim>\<open>
  const l = frame.data.length / 4;
  for (let i = 0; i < l; i++) { ... }\<close>
  \<open>l\<close> is a quotient of numbers, so \<open>i < l\<close> is \<open>4 * i < length\<close>.
\<close>

function chromaLoop :: "nat \<Rightarrow> byte list \<Rightarrow> byte list" where
  "chromaLoop i d = (if 4 * i < length d then chromaLoop (i + 1) (pixelStep i d) else d)"
  by pat_completeness auto
termination
  by (relation "measure (\<lambda>(i, d). length d - 4 * i)") auto

declare chromaLoop.simps [simp del]

definition processFrame :: "byte list \<Rightarrow> byte list" where
  "processFrame d = chromaLoop 0 d"


section \<open>Double-clap trigger (AudioMonitor, \<open>draw\<close>)\<close>

text \<open>
  \<^verbatim>\<open>
  let peak = 0;
  for (let i = 0; i < bufferLength; i++) {
      const x = (dataArray[i] - 128) / 128.0;
      const absX = Math.abs(x);
      if (absX > peak) peak = absX;
      ...
  }\<close>
  The samples are bytes, so every \<open>x\<close> is a multiple of \<open>1/128\<close> and exact in double
  precision; on such values the test \<open>peak > 0.6\<close> of the code agrees with the
  comparison of rationals.
\<close>

definition framePeak :: "byte list \<Rightarrow> rat" where
  "framePeak dataArray =
     fold (\<lambda>b peak. let x = (rat_of_nat (unat b) - 128) / 128; absX = \<bar>x\<bar>
                     in if absX > peak then absX else peak)
          dataArray 0"

text \<open>
  \<^verbatim>\<open>
  if (isAudioTriggerActive && peak > 0.6) {
      const now = Date.now();
      if (now - lastClapTimeRef.current > 100) {
          if (now - lastClapTimeRef.current < 800) {
               if (onTrigger) onTrigger();
               lastClapTimeRef.current = 0; // Reset
          } else {
               lastClapTimeRef.current = now;
          }
      }
  }\<close>
  The state is the one timestamp \<open>lastClapTimeRef.current\<close> (a ref, shared by all
  frames); \<open>Date.now()\<close> is an input, in milliseconds. \<open>isAudioTriggerActive\<close> is
  a constant of the render whose \<open>initAudio\<close> started the loop, and a parameter here.
  The result is the new timestamp and whether \<open>onTrigger\<close> was called.
\<close>

definition clapDetect :: "bool \<Rightarrow> rat \<Rightarrow> int \<Rightarrow> int \<Rightarrow> int \<times> bool" where
  "clapDetect isAudioTriggerActive peak now lastClapTime =
     (if isAudioTriggerActive \<and> peak > 0.6 then
        if now - lastClapTime > 100 then
          if now - lastClapTime < 800 then (0, True)
          else (now, False)
        else (lastClapTime, False)
      else (lastClapTime, False))"

text \<open>
  A run of frames, each with its peak and the value of \<open>Date.now()\<close> read in it. The
  result is the final timestamp and the number of calls of \<open>onTrigger\<close>.
\<close>

fun clapRun :: "bool \<Rightarrow> (rat \<times> int) list \<Rightarrow> int \<Rightarrow> int \<times> nat" where
  "clapRun isAudioTriggerActive [] lastClapTime = (lastClapTime, 0)"
| "clapRun isAudioTriggerActive ((peak, now) # frames) lastClapTime =
     (case clapDetect isAudioTriggerActive peak now lastClapTime of
        (t, fired) \<Rightarrow>
          (case clapRun isAudioTriggerActive frames t of
             (t', n) \<Rightarrow> (t', (if fired then 1 else 0) + n)))"


section \<open>Teleprompter: strings\<close>

text \<open>
  A JavaScript string is a sequence of 16-bit code units. The model takes the strings
  whose code units are below 256 (Latin-1), one \<open>char\<close> per code unit; on these the
  library functions used by the component are the following.
\<close>

text \<open>
  The class \<^verbatim>\<open>\s\<close> of regular expressions, which is also what \<open>trim\<close> removes:
  tab, line feed, vertical tab, form feed, carriage return, space, no-break space.
\<close>

definition isSpace :: "char \<Rightarrow> bool" where
  "isSpace c \<longleftrightarrow>
     c \<in> {CHR 0x09, CHR 0x0A, CHR 0x0B, CHR 0x0C, CHR 0x0D, CHR '' '', CHR 0xA0}"

text \<open>The class \<^verbatim>\<open>\w\<close>: ASCII digits and letters, and the underscore.\<close>

definition isWordChar :: "char \<Rightarrow> bool" where
  "isWordChar c \<longleftrightarrow>
     (let n = (of_char c :: nat)
      in (48 \<le> n \<and> n \<le> 57) \<or> (65 \<le> n \<and> n \<le> 90) \<or> n = 95 \<or> (97 \<le> n \<and> n \<le> 122))"

text \<open>
  \<open>toLowerCase\<close> on one code unit: the capital letters A to Z and, in the upper half,
  U+00C0 to U+00DE without the multiplication sign U+00D7, move up by 32, which sets
  the bit of weight 32.
\<close>

definition toLowerChar :: "char \<Rightarrow> char" where
  "toLowerChar c =
     (let n = (of_char c :: nat)
      in if (65 \<le> n \<and> n \<le> 90) \<or> (192 \<le> n \<and> n \<le> 222 \<and> n \<noteq> 215)
         then (case c of Char b0 b1 b2 b3 b4 b5 b6 b7 \<Rightarrow> Char b0 b1 b2 b3 b4 True b6 b7)
         else c)"

definition toLowerCase :: "string \<Rightarrow> string" where
  "toLowerCase s = map toLowerChar s"

definition trim :: "string \<Rightarrow> string" where
  "trim s = rev (dropWhile isSpace (rev (dropWhile isSpace s)))"

text \<open>
  \<open>s.split(sep)\<close> for a separator of one character: the pieces between the
  occurrences of the separator, empty pieces included; the empty string gives one
  empty piece.
\<close>

fun splitOn :: "(char \<Rightarrow> bool) \<Rightarrow> string \<Rightarrow> string list" where
  "splitOn sep [] = [[]]"
| "splitOn sep (c # cs) =
     (if sep c then [] # splitOn sep cs
      else (case splitOn sep cs of w # ws \<Rightarrow> (c # w) # ws | [] \<Rightarrow> [[c]]))"

text \<open>\<open>s.includes(searchString)\<close>: \<open>searchString\<close> occurs in \<open>s\<close> at some position.\<close>

fun includesStr :: "string \<Rightarrow> string \<Rightarrow> bool" where
  "includesStr [] searchString \<longleftrightarrow> searchString = []"
| "includesStr (c # cs) searchString \<longleftrightarrow>
     prefix searchString (c # cs) \<or> includesStr cs searchString"

text \<open>
  \<^verbatim>\<open>text.split(/(\s+)/)\<close>: the separator is a maximal run of white space and, being
  captured by the group, is itself put into the result between the pieces.
\<close>

lemma dropWhile_shorter:
  assumes "dropWhile (\<lambda>c. \<not> P c) s \<noteq> []"
  shows "length (dropWhile P (dropWhile (\<lambda>c. \<not> P c) s)) < length s"
proof -
  obtain x xs where r: "dropWhile (\<lambda>c. \<not> P c) s = x # xs"
    using assms by (cases "dropWhile (\<lambda>c. \<not> P c) s") auto
  then have "P x" by (simp add: dropWhile_eq_Cons_conv)
  then have "length (dropWhile P (x # xs)) \<le> length xs"
    by (simp add: length_dropWhile_le)
  moreover have "length (x # xs) \<le> length s"
    using length_dropWhile_le [of "\<lambda>c. \<not> P c" s] r by simp
  ultimately show ?thesis using r by simp
qed

function split_ws :: "string \<Rightarrow> string list" where
  "split_ws s =
     (let w = takeWhile (\<lambda>c. \<not> isSpace c) s; r = dropWhile (\<lambda>c. \<not> isSpace c) s
      in if r = [] then [w]
         else w # takeWhile isSpace r # split_ws (dropWhile isSpace r))"
  by pat_completeness auto
termination
  by (relation "measure length") (simp_all add: dropWhile_shorter)

declare split_ws.simps [simp del]

text \<open>
  \<^verbatim>\<open>
  const words = useMemo(() => {
    return text.split(/(\s+)/).filter(w => w.trim().length > 0);
  }, [text]);\<close>
\<close>

definition words :: "string \<Rightarrow> string list" where
  "words txt = filter (\<lambda>w. length (trim w) > 0) (split_ws txt)"

text \<open>
  The tokenisation in the words of the specification: split the script at white space
  and discard the empty tokens.
\<close>

definition spec_tokens :: "string \<Rightarrow> string list" where
  "spec_tokens txt = filter (\<lambda>w. w \<noteq> []) (splitOn isSpace txt)"


section \<open>Teleprompter: \<open>matchTextToScript\<close>\<close>

text \<open>
  \<open>words[i]\<close> beyond the end of the array is \<open>undefined\<close>, and calling
  \<open>toLowerCase\<close> on it throws.
\<close>

datatype error = TypeError

text \<open>\<^verbatim>\<open>words[i].toLowerCase().replace(/[^\w\s]/g, '')\<close>\<close>

definition scriptWordOf :: "string \<Rightarrow> string" where
  "scriptWordOf w = filter (\<lambda>c. isWordChar c \<or> isSpace c) (toLowerCase w)"

text \<open>
  Lower case written out as a table: the capital letters of Latin-1 and, at the same
  position, their small letters.
\<close>

definition upperCase :: string where
  "upperCase = ''ABCDEFGHIJKLMNOPQRSTUVWXYZ'' @
     [CHR 0xC0, CHR 0xC1, CHR 0xC2, CHR 0xC3, CHR 0xC4, CHR 0xC5, CHR 0xC6, CHR 0xC7,
      CHR 0xC8, CHR 0xC9, CHR 0xCA, CHR 0xCB, CHR 0xCC, CHR 0xCD, CHR 0xCE, CHR 0xCF,
      CHR 0xD0, CHR 0xD1, CHR 0xD2, CHR 0xD3, CHR 0xD4, CHR 0xD5, CHR 0xD6,
      CHR 0xD8, CHR 0xD9, CHR 0xDA, CHR 0xDB, CHR 0xDC, CHR 0xDD, CHR 0xDE]"

definition lowerCase :: string where
  "lowerCase = ''abcdefghijklmnopqrstuvwxyz'' @
     [CHR 0xE0, CHR 0xE1, CHR 0xE2, CHR 0xE3, CHR 0xE4, CHR 0xE5, CHR 0xE6, CHR 0xE7,
      CHR 0xE8, CHR 0xE9, CHR 0xEA, CHR 0xEB, CHR 0xEC, CHR 0xED, CHR 0xEE, CHR 0xEF,
      CHR 0xF0, CHR 0xF1, CHR 0xF2, CHR 0xF3, CHR 0xF4, CHR 0xF5, CHR 0xF6,
      CHR 0xF8, CHR 0xF9, CHR 0xFA, CHR 0xFB, CHR 0xFC, CHR 0xFD, CHR 0xFE]"

definition caseFold :: "char \<Rightarrow> char" where
  "caseFold c = (case map_of (zip upperCase lowerCase) c of Some l \<Rightarrow> l | None \<Rightarrow> c)"

text \<open>
  The punctuation marks of Latin-1: those of ASCII, which are the printable characters
  other than letters, digits and the space, and the inverted exclamation mark, the
  section sign, the two guillemets, the pilcrow, the middle dot and the inverted
  question mark.
\<close>

definition isPunctuation :: "char \<Rightarrow> bool" where
  "isPunctuation c \<longleftrightarrow>
     (let n = (of_char c :: nat)
      in (33 \<le> n \<and> n \<le> 47) \<or> (58 \<le> n \<and> n \<le> 64) \<or> (91 \<le> n \<and> n \<le> 96)
         \<or> (123 \<le> n \<and> n \<le> 126) \<or> n \<in> {161, 167, 171, 182, 183, 187, 191})"

text \<open>
  The matching rule in the words of the specification: the script token, case-folded
  and with its punctuation stripped, equals the spoken word, or is longer than 3 and a
  substring of the spoken word. The spoken word arrives case-folded.
\<close>

definition spec_matches :: "string \<Rightarrow> string \<Rightarrow> bool" where
  "spec_matches scriptToken spoken \<longleftrightarrow>
     (let tok = filter (\<lambda>c. \<not> isPunctuation c) (map caseFold scriptToken)
      in tok = spoken \<or> (3 < length tok \<and> sublist tok spoken))"

text \<open>
  The rule with another normalisation of the token: after the case folding, only the
  letters of ASCII, the digits, the underscore and the white space are kept. This
  deletes the punctuation, and with it every letter outside ASCII.
\<close>

definition keptChar :: "char \<Rightarrow> bool" where
  "keptChar c \<longleftrightarrow>
     c \<in> set ''abcdefghijklmnopqrstuvwxyzABCDEFGHIJKLMNOPQRSTUVWXYZ0123456789_''
     \<or> c \<in> set [CHR 0x09, CHR 0x0A, CHR 0x0B, CHR 0x0C, CHR 0x0D, CHR 0x20, CHR 0xA0]"

definition token_matches :: "string \<Rightarrow> string \<Rightarrow> bool" where
  "token_matches scriptToken spoken \<longleftrightarrow>
     (let tok = filter keptChar (map caseFold scriptToken)
      in tok = spoken \<or> (3 < length tok \<and> sublist tok spoken))"

text \<open>
  \<^verbatim>\<open>
  for (let i = startIndex; i < endIndex; i++) {
    const scriptWord = words[i].toLowerCase().replace(/[^\w\s]/g, '');
    if (scriptWord === lastSpokenWord ||
        (scriptWord.length > 3 && lastSpokenWord.includes(scriptWord))) {
      setCurrentWordIndex(i);
      scrollToWord(i);
      break;
    }
  }\<close>
  The result is the argument of the call of \<open>setCurrentWordIndex\<close>, if there is one.
\<close>

function matchLoop :: "string list \<Rightarrow> string \<Rightarrow> nat \<Rightarrow> nat \<Rightarrow> error + nat option" where
  "matchLoop ws lastSpokenWord endIndex i =
     (if i < endIndex then
        if i < length ws then
          (let scriptWord = scriptWordOf (ws ! i)
           in if scriptWord = lastSpokenWord
                 \<or> (length scriptWord > 3 \<and> includesStr lastSpokenWord scriptWord)
              then Inr (Some i)
              else matchLoop ws lastSpokenWord endIndex (i + 1))
        else Inl TypeError
      else Inr None)"
  by pat_completeness auto
termination
  by (relation "measure (\<lambda>(ws, w, endIndex, i). endIndex - i)") auto

declare matchLoop.simps [simp del]

text \<open>
  \<^verbatim>\<open>
  const matchTextToScript = (transcript: string) => {
    const spokenWords = transcript.split(' ');
    const lastSpokenWord = spokenWords[spokenWords.length - 1];
    const searchWindow = 50;
    const startIndex = currentWordIndex;
    const endIndex = Math.min(words.length, startIndex + searchWindow);
    for ...
  };\<close>
  \<open>words\<close> and \<open>currentWordIndex\<close> are constants of the render in which the
  function was created; they are parameters here. \<open>split\<close> never returns an empty
  array, so the last element exists.
\<close>

definition lastSpokenWordOf :: "string \<Rightarrow> string" where
  "lastSpokenWordOf transcript = last (splitOn (\<lambda>c. c = CHR '' '') transcript)"

definition matchTextToScript :: "string list \<Rightarrow> nat \<Rightarrow> string \<Rightarrow> error + nat option" where
  "matchTextToScript ws currentWordIndex transcript =
     (let lastSpokenWord = lastSpokenWordOf transcript;
          searchWindow = 50;
          startIndex = currentWordIndex;
          endIndex = min (length ws) (startIndex + searchWindow)
      in matchLoop ws lastSpokenWord endIndex startIndex)"


section \<open>Teleprompter: the component\<close>

datatype Mode = Volume | Smart

text \<open>
  One entry of \<open>event.results\<close>, with the first alternative's fields. The confidence is
  a number between 0 and 1 and is compared as a rational.
\<close>

record SpeechResult =
  isFinal :: bool
  confidence :: rat
  transcript :: string

text \<open>
  The state of the component that the alignment uses: the \<open>useState\<close> cells
  \<open>text\<close> (the field \<open>text'\<close>), \<open>isListening\<close>, \<open>mode\<close> and \<open>currentWordIndex\<close>,
  and the recogniser.
  A render binds \<open>currentWordIndex\<close> and \<open>words\<close> as constants and builds a new
  \<open>matchTextToScript\<close> over them. The recogniser and its \<open>onresult\<close> handler are
  created by the effect of lines 121 to 176, whose dependencies are
  \<^verbatim>\<open>[mode, isListening, words]\<close>: the handler calls the \<open>matchTextToScript\<close> of the
  render in which the effect last ran. \<open>handler\<close> holds the two constants of that
  render, or \<open>None\<close> when no recogniser is running (results that a stopped recogniser
  may still deliver are left out).
\<close>

record Teleprompter =
  text' :: string
  isListening :: bool
  mode :: Mode
  currentWordIndex :: nat
  handler :: "(nat \<times> string list) option"

text \<open>
  The effect of lines 121 to 176, run after a render in which a dependency changed (a
  browser with speech recognition is assumed):
  \<^verbatim>\<open>
  if (mode !== 'smart' || !isListening) {
    if (recognitionRef.current) recognitionRef.current.stop();
    return;
  }
  ...
  recognition.onresult = (event: any) => { ... matchTextToScript(transcript); ... };
  ...
  return () => { recognition.stop(); };\<close>
\<close>

definition speechEffect :: "Teleprompter \<Rightarrow> Teleprompter" where
  "speechEffect s =
     (if mode s \<noteq> Smart \<or> \<not> isListening s then s\<lparr>handler := None\<rparr>
      else s\<lparr>handler := Some (currentWordIndex s, words (text' s))\<rparr>)"

text \<open>
  \<^verbatim>\<open>onChange={(e) => setText(e.target.value)}\<close> of the script editor. Setting the
  state to the value it has does nothing; otherwise \<open>words\<close> is recomputed and the
  effect runs again. No other state is written.
\<close>

definition setText :: "string \<Rightarrow> Teleprompter \<Rightarrow> Teleprompter" where
  "setText v s = (if v = text' s then s else speechEffect (s\<lparr>text' := v\<rparr>))"

text \<open>\<^verbatim>\<open>onClick={() => setIsListening(!isListening)}\<close>\<close>

definition toggleListening :: "Teleprompter \<Rightarrow> Teleprompter" where
  "toggleListening s = speechEffect (s\<lparr>isListening := \<not> isListening s\<rparr>)"

text \<open>
  \<^verbatim>\<open>
  for (let i = event.resultIndex; i < event.results.length; ++i) {
    if (event.results[i].isFinal || event.results[i][0].confidence > 0.6) {
      const transcript = event.results[i][0].transcript.toLowerCase().trim();
      matchTextToScript(transcript);
    }
  }\<close>
  All calls go to the handler's \<open>matchTextToScript\<close>, with the handler's constants
  \<open>h\<close>; \<open>setCurrentWordIndex\<close> writes the state cell. An exception would leave the
  loop. (The listening indicator and its timer are not modelled.)
\<close>

fun resultsLoop :: "nat \<times> string list \<Rightarrow> SpeechResult list \<Rightarrow> Teleprompter \<Rightarrow> Teleprompter" where
  "resultsLoop h [] s = s"
| "resultsLoop h (r # rs) s =
     (if isFinal r \<or> confidence r > 0.6 then
        (case matchTextToScript (snd h) (fst h) (trim (toLowerCase (transcript r))) of
           Inl e \<Rightarrow> s
         | Inr None \<Rightarrow> resultsLoop h rs s
         | Inr (Some i) \<Rightarrow> resultsLoop h rs (s\<lparr>currentWordIndex := i\<rparr>))
      else resultsLoop h rs s)"

definition onresult :: "nat \<Rightarrow> SpeechResult list \<Rightarrow> Teleprompter \<Rightarrow> Teleprompter" where
  "onresult resultIndex results s =
     (case handler s of
        None \<Rightarrow> s
      | Some h \<Rightarrow> resultsLoop h (drop resultIndex results) s)"


section \<open>Teleprompter: voice activation in volume mode (\<open>analyze\<close>)\<close>

text \<open>
  The state that \<open>analyze\<close> reads and writes: the \<open>useState\<close> cell \<open>voiceActive\<close>
  and the ref \<open>silenceTimerRef\<close>, which holds the handle of a timeout or \<open>null\<close>.
  \<open>timeouts\<close> is the browser's table of pending timeouts, each with its handle and
  the time at which it is due; \<open>nextHandle\<close> is the handle \<open>setTimeout\<close> returns
  next. Times are in milliseconds.
\<close>

record Volume =
  voiceActive :: bool
  silenceTimerRef :: "nat option"
  timeouts :: "(nat \<times> nat) list"
  nextHandle :: nat

text \<open>
  \<^verbatim>\<open>
  let sum = 0;
  for(let i = 0; i < bufferLength; i++) sum += dataArray[i];
  const average = sum / bufferLength;\<close>
  The sum of bytes is exact, and so is the quotient by the buffer length 128 (the
  analyser has \<open>fftSize = 256\<close>).
\<close>

definition average :: "byte list \<Rightarrow> rat" where
  "average dataArray = rat_of_nat (sum_list (map unat dataArray)) / rat_of_nat (length dataArray)"

text \<open>
  \<^verbatim>\<open>const threshold = 55 - (sensitivity * 0.4);\<close>
  The slider gives whole numbers from 1 to 100. In double precision the product is
  rounded, by less than a hundred-million-millionth, and is exact when it is a whole
  number; an average is a multiple of \<open>1/128\<close>, so it differs from \<open>55 - 0.4 s\<close> by 0
  (only when \<open>0.4 s\<close> is whole) or by at least \<open>1/640\<close>, and the comparison of the
  code is the comparison of the rationals.
\<close>

definition threshold :: "nat \<Rightarrow> rat" where
  "threshold sensitivity = 55 - rat_of_nat sensitivity * 0.4"

text \<open>
  \<^verbatim>\<open>average > threshold\<close>. With no samples the average is \<open>0/0\<close>, which is \<open>NaN\<close>,
  and the test is false.
\<close>

definition above :: "nat \<Rightarrow> byte list \<Rightarrow> bool" where
  "above sensitivity dataArray \<longleftrightarrow>
     dataArray \<noteq> [] \<and> average dataArray > threshold sensitivity"

text \<open>\<open>clearTimeout(h)\<close> removes the timeout with the handle \<open>h\<close>, if it is pending.\<close>

definition clearTimeout :: "nat \<Rightarrow> (nat \<times> nat) list \<Rightarrow> (nat \<times> nat) list" where
  "clearTimeout h ts = filter (\<lambda>(h', due). h' \<noteq> h) ts"

text \<open>
  \<^verbatim>\<open>
  if (average > threshold) {
    setVoiceActive(true);
    if (silenceTimerRef.current) {
      clearTimeout(silenceTimerRef.current);
      silenceTimerRef.current = null;
    }
  } else {
    if (!silenceTimerRef.current && voiceActive) {
      silenceTimerRef.current = window.setTimeout(() => {
        setVoiceActive(false);
      }, 600);
    }
  }\<close>
  \<open>voiceActive\<close> is a dependency of the effect that defines \<open>analyze\<close>, so the
  function reads the value of the cell. \<open>now\<close> is the time of the frame, from which the
  600 ms of \<open>setTimeout\<close> count. Handles are positive numbers, so a ref that holds
  one counts as set.
\<close>

definition analyze :: "nat \<Rightarrow> nat \<Rightarrow> byte list \<Rightarrow> Volume \<Rightarrow> Volume" where
  "analyze sensitivity now dataArray s =
     (if above sensitivity dataArray then
        (case silenceTimerRef s of
           Some h \<Rightarrow> s\<lparr>voiceActive := True,
                       timeouts := clearTimeout h (timeouts s),
                       silenceTimerRef := None\<rparr>
         | None \<Rightarrow> s\<lparr>voiceActive := True\<rparr>)
      else if silenceTimerRef s = None \<and> voiceActive s then
        s\<lparr>silenceTimerRef := Some (nextHandle s),
          timeouts := timeouts s @ [(nextHandle s, now + 600)],
          nextHandle := nextHandle s + 1\<rparr>
      else s)"

text \<open>
  The timeout with handle \<open>h\<close> fires: the browser takes it from the table and runs
  \<^verbatim>\<open>() => { setVoiceActive(false); }\<close>. The ref keeps the handle.
\<close>

definition timeoutFires :: "nat \<Rightarrow> Volume \<Rightarrow> Volume" where
  "timeoutFires h s = s\<lparr>voiceActive := False, timeouts := clearTimeout h (timeouts s)\<rparr>"

text \<open>
  What happens to the component in volume mode: a frame at some time with its samples,
  or a pending timeout firing at some time, not before it is due. A configuration is the
  clock, the time of the last frame above the threshold (kept for the statements only)
  and the state. \<open>step\<close> is \<open>None\<close> for an event that cannot happen: one that goes
  back in time, or a timeout that is not pending or not due.
\<close>

datatype Event = Frame nat "byte list" | Timeout nat nat

type_synonym config = "nat \<times> nat option \<times> Volume"

fun step :: "nat \<Rightarrow> Event \<Rightarrow> config \<Rightarrow> config option" where
  "step sensitivity (Frame t d) (clock, lastAbove, s) =
     (if clock \<le> t
      then Some (t, (if above sensitivity d then Some t else lastAbove),
                 analyze sensitivity t d s)
      else None)"
| "step sensitivity (Timeout t h) (clock, lastAbove, s) =
     (if clock \<le> t \<and> list_ex (\<lambda>(h', due). h' = h \<and> due \<le> t) (timeouts s)
      then Some (t, lastAbove, timeoutFires h s)
      else None)"

fun run :: "nat \<Rightarrow> Event list \<Rightarrow> config \<Rightarrow> config option" where
  "run sensitivity [] c = Some c"
| "run sensitivity (e # es) c =
     (case step sensitivity e c of None \<Rightarrow> None | Some c' \<Rightarrow> run sensitivity es c')"

text \<open>
  What an observer of \<open>voiceActive\<close> sees along a run: each change of the cell, with
  the time of the event that made it and the new value.
\<close>

fun edges :: "nat \<Rightarrow> Event list \<Rightarrow> config \<Rightarrow> (nat \<times> bool) list" where
  "edges sensitivity [] c = []"
| "edges sensitivity (e # es) c =
     (case step sensitivity e c of
        None \<Rightarrow> []
      | Some c' \<Rightarrow>
          (if voiceActive (snd (snd c')) = voiceActive (snd (snd c)) then []
           else [(fst c', voiceActive (snd (snd c')))])
          @ edges sensitivity es c')"

text \<open>The component starts inactive, with no timer.\<close>

definition initialVolume :: Volume where
  "initialVolume = \<lparr>voiceActive = False, silenceTimerRef = None, timeouts = [], nextHandle = 1\<rparr>"

text \<open>
  What every configuration of a run satisfies: a pending timeout is the one the ref
  names, it belongs to an active component, it is due within 600 ms of the clock and not
  before 600 ms after the last frame above the threshold; at most one timeout is
  pending; an active component whose ref is set has its timeout pending; an active
  component has seen a frame above the threshold, and that frame is not in the future.
\<close>

definition inv :: "config \<Rightarrow> bool" where
  "inv cfg =
     (case cfg of (clock, lastAbove, s) \<Rightarrow>
        (\<forall>(h, due)\<in>set (timeouts s).
            silenceTimerRef s = Some h \<and> voiceActive s \<and> due \<le> clock + 600
            \<and> (\<exists>t. lastAbove = Some t \<and> t + 600 \<le> due))
        \<and> length (timeouts s) \<le> 1
        \<and> (voiceActive s \<and> silenceTimerRef s \<noteq> None \<longrightarrow> timeouts s \<noteq> [])
        \<and> (voiceActive s \<longrightarrow> lastAbove \<noteq> None)
        \<and> (\<forall>t. lastAbove = Some t \<longrightarrow> t \<le> clock))"


section \<open>Recording (App)\<close>

text \<open>
  \<^verbatim>\<open>export interface Shot { id: string; name: string; completed: boolean; take: number; }\<close>
  The take counter starts at 1 and is only ever incremented.
\<close>

record Shot =
  id' :: string
  name :: string
  completed :: bool
  take' :: nat

text \<open>The decimal digits of a whole number, as a template literal writes them.\<close>

definition digitChar :: "nat \<Rightarrow> char" where
  "digitChar d = ''0123456789'' ! d"

fun numberToString :: "nat \<Rightarrow> string" where
  "numberToString n =
     (if n < 10 then [digitChar n] else numberToString (n div 10) @ [digitChar (n mod 10)])"

declare numberToString.simps [simp del]

text \<open>\<open>s.padStart(n, c)\<close> for a padding of one character.\<close>

definition padStart :: "nat \<Rightarrow> char \<Rightarrow> string \<Rightarrow> string" where
  "padStart n c s = replicate (n - length s) c @ s"

text \<open>\<^verbatim>\<open>name.replace(/\s+/g, '_')\<close>: every maximal run of white space becomes one underscore.\<close>

function replaceSpaces :: "string \<Rightarrow> string" where
  "replaceSpaces [] = []"
| "replaceSpaces (c # cs) =
     (if isSpace c then CHR ''_'' # replaceSpaces (dropWhile isSpace cs)
      else c # replaceSpaces cs)"
  by pat_completeness auto
termination
  by (relation "measure length") (simp_all add: length_dropWhile_le le_imp_less_Suc)

text \<open>The fields of \<open>new Date()\<close> that the file name uses.\<close>

record Date =
  getFullYear :: nat
  getMonth :: nat
  getDate :: nat
  getHours :: nat
  getMinutes :: nat

text \<open>
  \<^verbatim>\<open>
  const timestamp = `${now.getFullYear()}${String(now.getMonth()+1).padStart(2,'0')}${
    String(now.getDate()).padStart(2,'0')}_${String(now.getHours()).padStart(2,'0')}${
    String(now.getMinutes()).padStart(2,'0')}`;\<close>
\<close>

definition timestamp :: "Date \<Rightarrow> string" where
  "timestamp now =
     numberToString (getFullYear now)
     @ padStart 2 (CHR ''0'') (numberToString (getMonth now + 1))
     @ padStart 2 (CHR ''0'') (numberToString (getDate now))
     @ ''_''
     @ padStart 2 (CHR ''0'') (numberToString (getHours now))
     @ padStart 2 (CHR ''0'') (numberToString (getMinutes now))"

text \<open>
  The part of \<open>recorder.onstop\<close> that names the file:
  \<^verbatim>\<open>
  const activeShot = shots.find(s => s.id === activeShotId);
  let filename = `A6000_REC`;
  if (activeShot) {
      filename = `${activeShot.name.replace(/\s+/g, '_')}_Take${activeShot.take}`;
      setShots(prev => prev.map(s => s.id === activeShot.id ? { ...s, take: s.take + 1 } : s));
  } else {
      const now = new Date();
      ...
      filename += `_${timestamp}`;
  }\<close>
  The handler is created by \<open>startRecording\<close>: \<open>shots\<close> and \<open>activeShotId\<close> are the
  constants of the render in which the recording was started. \<open>prev\<close> is the list in the
  state when the update runs. The result is the file name, without its extension, and
  the new list.
\<close>

definition onstop :: "Shot list \<Rightarrow> string option \<Rightarrow> Date \<Rightarrow> Shot list \<Rightarrow> string \<times> Shot list" where
  "onstop shots activeShotId now prev =
     (case find (\<lambda>s. Some (id' s) = activeShotId) shots of
        Some activeShot \<Rightarrow>
          (replaceSpaces (name activeShot) @ ''_Take'' @ numberToString (take' activeShot),
           map (\<lambda>s. if id' s = id' activeShot then s\<lparr>take' := take' s + 1\<rparr> else s) prev)
      | None \<Rightarrow> (''A6000_REC'' @ ''_'' @ timestamp now, prev))"

text \<open>A number written with exactly \<open>k\<close> digits, as the pattern \<open>YYYYMMDD_HHMM\<close> asks.\<close>

definition fixedWidth :: "nat \<Rightarrow> nat \<Rightarrow> string" where
  "fixedWidth k n = map (\<lambda>j. digitChar ((n div 10 ^ (k - 1 - j)) mod 10)) [0..<k]"

text \<open>
  The shot list in the application: the two \<open>useState\<close> cells \<open>shots\<close> and
  \<open>activeShotId\<close>, the \<open>onstop\<close> handler of the recorder, which is the pair of
  constants it closed over when \<open>startRecording\<close> built it (or nothing before the
  first recording), and the names of the files handed to the browser for download,
  without their extension.
\<close>

record Takes =
  shots :: "Shot list"
  activeShotId :: "string option"
  recorderOnstop :: "(Shot list \<times> string option) option"
  downloads :: "string list"

text \<open>A click on a shot of the list: \<^verbatim>\<open>onSelectShot={setActiveShotId}\<close>.\<close>

definition setActiveShotId :: "string \<Rightarrow> Takes \<Rightarrow> Takes" where
  "setActiveShotId i s = s\<lparr>activeShotId := Some i\<rparr>"

text \<open>
  \<^verbatim>\<open>
  const handleDeleteShot = (id: string) => {
    setShots(shots.filter(s => s.id !== id));
    if (activeShotId === id) setActiveShotId(null);
  };\<close>
\<close>

definition handleDeleteShot :: "string \<Rightarrow> Takes \<Rightarrow> Takes" where
  "handleDeleteShot i s =
     s\<lparr>shots := filter (\<lambda>x. id' x \<noteq> i) (shots s),
       activeShotId := (if activeShotId s = Some i then None else activeShotId s)\<rparr>"

text \<open>
  What \<open>startRecording\<close> does to the shot list: nothing, but the handler
  \<^verbatim>\<open>recorder.onstop = () => { ... }\<close> it creates refers to the \<open>shots\<close> and the
  \<open>activeShotId\<close> of the render in which \<open>startRecording\<close> was created, which is the
  one on the screen when the recording starts.
\<close>

definition startRecording_onstop :: "Takes \<Rightarrow> Takes" where
  "startRecording_onstop s = s\<lparr>recorderOnstop := Some (shots s, activeShotId s)\<rparr>"

text \<open>
  The recorder's \<open>stop\<close> event: the handler runs with its constants, \<open>prev\<close> is the
  list in the state now, and the file goes to the browser.
\<close>

definition recorderStops :: "Date \<Rightarrow> Takes \<Rightarrow> Takes" where
  "recorderStops now s =
     (case recorderOnstop s of
        None \<Rightarrow> s
      | Some (shots0, activeShotId0) \<Rightarrow>
          (case onstop shots0 activeShotId0 now (shots s) of
             (filename, l) \<Rightarrow> s\<lparr>shots := l, downloads := downloads s @ [filename]\<rparr>))"

text \<open>
  The naming policy in the words of the specification. When the recording stops and a
  shot is selected, the file has the name of that shot with each white-space character
  replaced by an underscore, then \<open>_Take\<close> and the shot's take counter, and that shot's
  counter goes up by one; with no shot selected the file is \<open>A6000_REC_\<close> and the time
  as \<open>YYYYMMDD_HHMM\<close>.
\<close>

definition spec_stop :: "Date \<Rightarrow> Takes \<Rightarrow> Takes" where
  "spec_stop now s =
     (case find (\<lambda>x. Some (id' x) = activeShotId s) (shots s) of
        Some sh \<Rightarrow>
          s\<lparr>shots := map (\<lambda>x. if id' x = id' sh then x\<lparr>take' := take' x + 1\<rparr> else x) (shots s),
            downloads := downloads s @
              [map (\<lambda>c. if isSpace c then CHR ''_'' else c) (name sh)
               @ ''_Take'' @ numberToString (take' sh)]\<rparr>
      | None \<Rightarrow>
          s\<lparr>downloads := downloads s @
              [''A6000_REC_'' @ fixedWidth 4 (getFullYear now) @ fixedWidth 2 (getMonth now + 1)
               @ fixedWidth 2 (getDate now) @ ''_''
               @ fixedWidth 2 (getHours now) @ fixedWidth 2 (getMinutes now)]\<rparr>)"

text \<open>
  The recorder and the flags around it: \<open>mediaRecorderRef\<close> (\<open>null\<close>, or a recorder
  in one of its three states), \<open>isRecording\<close>, \<open>recordingTimerRef\<close> (\<open>null\<close> or the
  handle of the interval that counts the seconds), the browser's table of running
  intervals, and the two places where the code reports: the console and \<open>alert\<close>.
\<close>

datatype RecordingState = Inactive | Recording | Paused

record App =
  mediaRecorderRef :: "RecordingState option"
  isRecording :: bool
  recordingTimerRef :: "nat option"
  intervals :: "nat list"
  console :: "string list"
  alerts :: "string list"

text \<open>
  \<^verbatim>\<open>
  const stopRecording = () => {
    if (mediaRecorderRef.current && mediaRecorderRef.current.state !== 'inactive') {
      mediaRecorderRef.current.stop();
    }
    setIsRecording(false);
    if (recordingTimerRef.current) {
      clearInterval(recordingTimerRef.current);
      recordingTimerRef.current = null;
    }
  };\<close>
  \<open>stop()\<close> makes the recorder inactive (its \<open>stop\<close> event comes later).
\<close>

definition stopRecording :: "App \<Rightarrow> App" where
  "stopRecording s =
     (let s1 = (case mediaRecorderRef s of
                  Some st \<Rightarrow> if st \<noteq> Inactive then s\<lparr>mediaRecorderRef := Some Inactive\<rparr> else s
                | None \<Rightarrow> s);
          s2 = s1\<lparr>isRecording := False\<rparr>
      in case recordingTimerRef s2 of
           Some t \<Rightarrow> s2\<lparr>intervals := removeAll t (intervals s2), recordingTimerRef := None\<rparr>
         | None \<Rightarrow> s2)"

text \<open>
  \<^verbatim>\<open>
  recorder.onerror = (event) => {
    console.error("Recorder error:", event);
    stopRecording();
  };\<close>
\<close>

definition onerror :: "string \<Rightarrow> App \<Rightarrow> App" where
  "onerror event s = stopRecording (s\<lparr>console := console s @ [''Recorder error: '' @ event]\<rparr>)"

text \<open>
  \<^verbatim>\<open>
  const handleToggleRecord = () => {
    if (isRecording) { stopRecording(); } else { startRecording(); }
  };\<close>
  \<open>startRecording\<close> plays no part in stopping and is a parameter.
\<close>

definition handleToggleRecord :: "(App \<Rightarrow> App) \<Rightarrow> App \<Rightarrow> App" where
  "handleToggleRecord startRecording s =
     (if isRecording s then stopRecording s else startRecording s)"


section \<open>Properties of the guide toggle\<close>

text \<open>
  Claim C10. The toggle advances the guide in the fixed cyclic order
  none, 9:16, 4:5, 1:1, none; four applications return every guide to itself.
\<close>

theorem toggleGuide_cycle:
  "toggleGuide GuideNone = Guide9x16
   \<and> toggleGuide Guide9x16 = Guide4x5
   \<and> toggleGuide Guide4x5 = Guide1x1
   \<and> toggleGuide Guide1x1 = GuideNone
   \<and> (\<forall>g. toggleGuide (toggleGuide (toggleGuide (toggleGuide g))) = g)"
proof -
  have four: "toggleGuide (toggleGuide (toggleGuide (toggleGuide g))) = g" for g
    by (cases g) (simp_all add: toggleGuide_def)
  show ?thesis
    using four by (simp add: toggleGuide_def)
qed


section \<open>Properties of the chroma-key pass\<close>

lemma pixelStep_other: "k \<noteq> i * 4 + 3 \<Longrightarrow> pixelStep i d ! k = d ! k"
  by (simp add: pixelStep_def split: option.splits)

lemma pixelStep_alpha:
  "i * 4 + 3 < length d \<Longrightarrow>
   pixelStep i d ! (i * 4 + 3) =
     (if isGreen (d ! (i * 4)) (d ! (i * 4 + 1)) (d ! (i * 4 + 2)) then 0 else d ! (i * 4 + 3))"
  by (simp add: pixelStep_def rd_def)

lemma length_chromaLoop [simp]: "length (chromaLoop i d) = length d"
proof (induction i d rule: chromaLoop.induct)
  case (1 i d)
  then show ?case by (subst chromaLoop.simps) simp
qed

text \<open>The colour channels are at the offsets 0, 1 and 2 modulo 4; no step writes there.\<close>

lemma chromaLoop_rgb: "k mod 4 \<noteq> 3 \<Longrightarrow> chromaLoop i d ! k = d ! k"
proof (induction i d rule: chromaLoop.induct)
  case (1 i d)
  have ne: "k \<noteq> i * 4 + 3" using "1.prems" by presburger
  show ?case
  proof (cases "4 * i < length d")
    case True
    then have "chromaLoop i d ! k = chromaLoop (i + 1) (pixelStep i d) ! k"
      by (subst chromaLoop.simps) simp
    also have "\<dots> = pixelStep i d ! k" using "1.IH" True "1.prems" by simp
    also have "\<dots> = d ! k" using ne by (rule pixelStep_other)
    finally show ?thesis .
  next
    case False
    then show ?thesis by (subst chromaLoop.simps) simp
  qed
qed

text \<open>The alpha of pixel \<open>p\<close> after the loop has run from pixel \<open>i\<close> on.\<close>

lemma chromaLoop_alpha:
  "p * 4 + 3 < length d \<Longrightarrow>
   chromaLoop i d ! (p * 4 + 3) =
     (if i \<le> p \<and> isGreen (d ! (p * 4)) (d ! (p * 4 + 1)) (d ! (p * 4 + 2)) then 0
      else d ! (p * 4 + 3))"
proof (induction i d rule: chromaLoop.induct)
  case (1 i d)
  show ?case
  proof (cases "4 * i < length d")
    case True
    let ?d = "pixelStep i d"
    have step: "chromaLoop i d = chromaLoop (i + 1) ?d"
      using True by (subst chromaLoop.simps) simp
    have rgb: "?d ! (p * 4) = d ! (p * 4)" "?d ! (p * 4 + 1) = d ! (p * 4 + 1)"
        "?d ! (p * 4 + 2) = d ! (p * 4 + 2)"
      by (rule pixelStep_other, presburger)+
    have ih: "chromaLoop (i + 1) ?d ! (p * 4 + 3) =
        (if i + 1 \<le> p \<and> isGreen (d ! (p * 4)) (d ! (p * 4 + 1)) (d ! (p * 4 + 2)) then 0
         else ?d ! (p * 4 + 3))"
      using "1.IH" [OF True] "1.prems" rgb by simp
    show ?thesis
    proof (cases "p = i")
      case True
      with ih step pixelStep_alpha [of i d] "1.prems" show ?thesis by simp
    next
      case False
      then have "?d ! (p * 4 + 3) = d ! (p * 4 + 3)"
        by (intro pixelStep_other) simp
      with ih step False show ?thesis by auto
    qed
  next
    case False
    with "1.prems" have "\<not> i \<le> p" by simp
    with False show ?thesis by (subst chromaLoop.simps) simp
  qed
qed

lemma processFrame_masked: "processFrame [10, 200, 10, 255] = [10, 200, 10, 0]"
  by (simp add: processFrame_def chromaLoop.simps pixelStep_def rd_def isGreen_def)

lemma processFrame_kept: "processFrame [150, 160, 150, 255] = [150, 160, 150, 255]"
  by (simp add: processFrame_def chromaLoop.simps pixelStep_def rd_def isGreen_def)

text \<open>
  Claim C7. For every pixel \<open>p\<close> of the buffer, with channels \<open>r\<close>, \<open>g\<close>, \<open>b\<close>, the pass
  keeps the length of the buffer and the three colour channels, and the alpha afterwards
  is 0 when \<open>g > 100\<close>, \<open>g > 1.5 r\<close> and \<open>g > 1.5 b\<close>, and the alpha before otherwise. The
  pixel (10, 200, 10) is masked, the pixel (150, 160, 150) is not.
\<close>

theorem chroma_key_mask:
  "(p * 4 + 3 < length d \<longrightarrow>
      length (processFrame d) = length d
      \<and> processFrame d ! (p * 4) = d ! (p * 4)
      \<and> processFrame d ! (p * 4 + 1) = d ! (p * 4 + 1)
      \<and> processFrame d ! (p * 4 + 2) = d ! (p * 4 + 2)
      \<and> processFrame d ! (p * 4 + 3) =
          (if 100 < unat (d ! (p * 4 + 1))
              \<and> rat_of_nat (unat (d ! (p * 4))) * 1.5 < rat_of_nat (unat (d ! (p * 4 + 1)))
              \<and> rat_of_nat (unat (d ! (p * 4 + 2))) * 1.5 < rat_of_nat (unat (d ! (p * 4 + 1)))
           then 0 else d ! (p * 4 + 3)))
   \<and> processFrame [10, 200, 10, 255] = [10, 200, 10, 0]
   \<and> processFrame [150, 160, 150, 255] = [150, 160, 150, 255]"
proof -
  have rgb: "processFrame d ! (p * 4) = d ! (p * 4)"
      "processFrame d ! (p * 4 + 1) = d ! (p * 4 + 1)"
      "processFrame d ! (p * 4 + 2) = d ! (p * 4 + 2)"
    unfolding processFrame_def by (rule chromaLoop_rgb, presburger)+
  have alpha: "processFrame d ! (p * 4 + 3) =
      (if isGreen (d ! (p * 4)) (d ! (p * 4 + 1)) (d ! (p * 4 + 2)) then 0 else d ! (p * 4 + 3))"
    if "p * 4 + 3 < length d"
    using chromaLoop_alpha [OF that, of 0] by (simp add: processFrame_def)
  have len: "length (processFrame d) = length d"
    by (simp add: processFrame_def)
  show ?thesis
    using rgb alpha len processFrame_masked processFrame_kept
    by (simp add: isGreen_def)
qed

text \<open>A buffer of two pixels, the first green and the second grey.\<close>

theorem chroma_key_mask_witness:
  "processFrame [10, 200, 10, 255, 150, 160, 150, 255] ! 3 = 0
   \<and> processFrame [10, 200, 10, 255, 150, 160, 150, 255] ! 7 = 255
   \<and> processFrame [10, 200, 10, 255, 150, 160, 150, 255] ! 5 = 160"
  using chroma_key_mask [of 0 "[10, 200, 10, 255, 150, 160, 150, 255]"]
    chroma_key_mask [of 1 "[10, 200, 10, 255, 150, 160, 150, 255]"]
  by simp


section \<open>Properties of the double-clap trigger\<close>

text \<open>The four outcomes of one frame, by the distance to the stored timestamp.\<close>

lemma clapDetect_cases:
  "clapDetect en peak now stored =
     (if \<not> en \<or> peak \<le> 0.6 \<or> now - stored \<le> 100 then (stored, False)
      else if now - stored < 800 then (0, True)
      else (now, False))"
  by (auto simp: clapDetect_def)

text \<open>
  Two claps 500 ms apart fire once; 50 ms apart the second one is dropped and nothing
  fires; 900 ms apart nothing fires, the second clap is stored and a third one 500 ms
  later fires. \<open>T\<close> is the clock at the first clap, the stored timestamp is 0 before it.
\<close>

lemma clapRun_examples:
  assumes "800 \<le> T" and "0.6 < peak"
  shows "clapRun True [(peak, T), (peak, T + 500)] 0 = (0, 1)"
    and "clapRun True [(peak, T), (peak, T + 50)] 0 = (T, 0)"
    and "clapRun True [(peak, T), (peak, T + 900)] 0 = (T + 900, 0)"
    and "clapRun True [(peak, T), (peak, T + 900), (peak, T + 1400)] 0 = (0, 1)"
  using assms by (simp_all add: clapDetect_def)

text \<open>
  Claim C3, at the edge of the debounce. The stored clap is at 1700000000000 and the next
  qualifying peak comes exactly 100 ms later: it is not less than 100 ms after the stored
  one, and well within 800 ms, yet the frame fires nothing and keeps the stored timestamp,
  because the code asks for more than 100 ms. One millisecond later it would have fired.
\<close>

theorem clapDetect_at_100ms:
  "clapDetect True 0.7 1700000000100 1700000000000 = (1700000000000, False)
   \<and> \<not> (1700000000100 - 1700000000000 < (100 :: int))
   \<and> 1700000000100 - 1700000000000 < (800 :: int)
   \<and> clapDetect True 0.7 1700000000101 1700000000000 = (0, True)"
  by (simp add: clapDetect_def)


section \<open>Properties of the tokenisation\<close>

lemma splitOn_nonempty [simp]: "splitOn sep s \<noteq> []"
  by (induction s) (auto split: list.splits)

lemma splitOn_no_sep:
  "\<forall>c\<in>set w. \<not> sep c \<Longrightarrow>
   splitOn sep (w @ r) = (w @ hd (splitOn sep r)) # tl (splitOn sep r)"
proof (induction w)
  case Nil
  then show ?case by simp
next
  case (Cons c w)
  then show ?case by (simp split: list.splits)
qed

lemma splitOn_all_sep:
  "\<forall>c\<in>set sp. sep c \<Longrightarrow>
   filter (\<lambda>w. w \<noteq> []) (splitOn sep (sp @ r)) = filter (\<lambda>w. w \<noteq> []) (splitOn sep r)"
  by (induction sp) simp_all

lemma trim_empty: "trim w = [] \<longleftrightarrow> (\<forall>c\<in>set w. isSpace c)"
proof -
  have "trim w = [] \<longleftrightarrow> (\<forall>c\<in>set (dropWhile isSpace w). isSpace c)"
    by (simp add: trim_def dropWhile_eq_Nil_conv)
  also have "\<dots> \<longleftrightarrow> dropWhile isSpace w = []"
  proof
    assume all: "\<forall>c\<in>set (dropWhile isSpace w). isSpace c"
    show "dropWhile isSpace w = []"
    proof (rule ccontr)
      assume ne: "dropWhile isSpace w \<noteq> []"
      then have "\<not> isSpace (hd (dropWhile isSpace w))" by (rule hd_dropWhile)
      moreover have "hd (dropWhile isSpace w) \<in> set (dropWhile isSpace w)"
        using ne by (rule hd_in_set)
      ultimately show False using all by blast
    qed
  next
    assume "dropWhile isSpace w = []"
    then show "\<forall>c\<in>set (dropWhile isSpace w). isSpace c" by (auto dest: set_dropWhileD)
  qed
  also have "\<dots> \<longleftrightarrow> (\<forall>c\<in>set w. isSpace c)"
    by (simp add: dropWhile_eq_Nil_conv)
  finally show ?thesis .
qed

lemma takeWhile_all: "\<forall>c\<in>set (takeWhile P xs). P c"
  by (auto dest: set_takeWhileD)

lemma words_eq_spec_tokens: "words s = spec_tokens s"
proof (induction s rule: split_ws.induct)
  case (1 s)
  let ?w = "takeWhile (\<lambda>c. \<not> isSpace c) s"
  let ?r = "dropWhile (\<lambda>c. \<not> isSpace c) s"
  have now: "\<forall>c\<in>set ?w. \<not> isSpace c" by (rule takeWhile_all)
  have keep_w: "trim ?w = [] \<longleftrightarrow> ?w = []"
    unfolding trim_empty using now by (cases ?w) auto
  have split_s: "splitOn isSpace s = (?w @ hd (splitOn isSpace ?r)) # tl (splitOn isSpace ?r)"
    using splitOn_no_sep [OF now, of ?r] by simp
  show ?case
  proof (cases "?r = []")
    case True
    then have "split_ws s = [?w]" by (subst split_ws.simps) simp
    then have "words s = (if ?w = [] then [] else [?w])"
      using keep_w by (simp add: words_def)
    moreover have "splitOn isSpace s = [?w]"
      by (subst split_s) (simp add: True)
    ultimately show ?thesis by (simp add: spec_tokens_def)
  next
    case False
    let ?sp = "takeWhile isSpace ?r"
    let ?rest = "dropWhile isSpace ?r"
    have sp: "\<forall>c\<in>set ?sp. isSpace c" by (rule takeWhile_all)
    have drop_sp: "trim ?sp = []"
      unfolding trim_empty by (rule sp)
    have "split_ws s = ?w # ?sp # split_ws ?rest"
      using False by (subst split_ws.simps) (simp add: Let_def)
    then have lhs: "words s = (if ?w = [] then [] else [?w]) @ words ?rest"
      using keep_w drop_sp by (simp add: words_def)
    have hd_r: "isSpace (hd ?r)"
      using hd_dropWhile [OF False] by simp
    have "filter (\<lambda>w. w \<noteq> []) (splitOn isSpace (?sp @ ?rest))
          = filter (\<lambda>w. w \<noteq> []) (splitOn isSpace ?rest)"
      by (rule splitOn_all_sep [OF sp])
    then have filt: "filter (\<lambda>w. w \<noteq> []) (splitOn isSpace ?r)
          = filter (\<lambda>w. w \<noteq> []) (splitOn isSpace ?rest)"
      by simp
    have hd_split: "hd (splitOn isSpace ?r) = []"
      using False hd_r by (cases ?r) simp_all
    have "filter (\<lambda>w. w \<noteq> []) (tl (splitOn isSpace ?r))
          = filter (\<lambda>w. w \<noteq> []) (splitOn isSpace ?r)"
      using hd_split by (cases "splitOn isSpace ?r") simp_all
    with filt have "spec_tokens s = (if ?w = [] then [] else [?w]) @ spec_tokens ?rest"
      unfolding spec_tokens_def by (subst split_s) (simp add: hd_split)
    moreover have "words ?rest = spec_tokens ?rest"
      using "1.IH" [OF refl refl False] by simp
    ultimately show ?thesis using lhs by simp
  qed
qed


section \<open>Properties of the string functions of the matcher\<close>

lemma includesStr_sublist: "includesStr s x \<longleftrightarrow> sublist x s"
  by (induction s) (auto simp: sublist_Cons_right)

lemma splitOn_single: "\<forall>c\<in>set w. \<not> sep c \<Longrightarrow> splitOn sep w = [w]"
  using splitOn_no_sep [of w sep "[]"] by simp

lemma splitOn_tail_nonempty: "sep c \<Longrightarrow> tl (splitOn sep (xs @ c # ys)) \<noteq> []"
  by (induction xs) (auto split: list.splits)

lemma last_splitOn_append:
  "sep c \<Longrightarrow> last (splitOn sep (xs @ c # ys)) = last (splitOn sep ys)"
proof (induction xs)
  case Nil
  then show ?case by simp
next
  case (Cons x xs)
  obtain w ws where sp: "splitOn sep (xs @ c # ys) = w # ws"
    by (cases "splitOn sep (xs @ c # ys)") (use splitOn_nonempty in auto)
  with splitOn_tail_nonempty [of sep c xs ys] Cons.prems have ws: "ws \<noteq> []" by simp
  show ?case
  proof (cases "sep x")
    case True
    then show ?thesis using Cons by simp
  next
    case False
    then have "last (splitOn sep ((x # xs) @ c # ys)) = last ((x # w) # ws)"
      using sp by simp
    also have "\<dots> = last (w # ws)" using ws by simp
    also have "\<dots> = last (splitOn sep ys)" using Cons sp by simp
    finally show ?thesis .
  qed
qed

lemma splitOn_last:
  "last (splitOn sep s) = rev (takeWhile (\<lambda>c. \<not> sep c) (rev s))"
proof -
  let ?w = "rev (takeWhile (\<lambda>c. \<not> sep c) (rev s))"
  let ?p = "rev (dropWhile (\<lambda>c. \<not> sep c) (rev s))"
  have s: "?p @ ?w = s"
    by (metis rev_append rev_rev_ident takeWhile_dropWhile_id)
  have w: "\<forall>c\<in>set ?w. \<not> sep c"
    using takeWhile_all [of "\<lambda>c. \<not> sep c" "rev s"] by simp
  show ?thesis
  proof (cases "dropWhile (\<lambda>c. \<not> sep c) (rev s)")
    case Nil
    have "?w = s" using s by (simp only: Nil rev.simps append_Nil)
    then show ?thesis using splitOn_single [OF w] by simp
  next
    case (Cons c r)
    then have c: "sep c" using hd_dropWhile [of "\<lambda>c. \<not> sep c" "rev s"] by auto
    have "s = rev r @ c # ?w" using s Cons by simp
    then have "last (splitOn sep s) = last (splitOn sep (rev r @ c # ?w))" by simp
    also have "\<dots> = last (splitOn sep ?w)" using c by (rule last_splitOn_append)
    also have "\<dots> = ?w" using splitOn_single [OF w] by simp
    finally show ?thesis .
  qed
qed


section \<open>Properties of \<open>matchTextToScript\<close>\<close>

lemma toLowerChar_caseFold: "\<forall>c. toLowerChar c = caseFold c"
  by code_simp

lemma wordChar_or_space: "\<forall>c. (isWordChar c \<or> isSpace c) = keptChar c"
  by code_simp

lemma scriptWordOf_normalised: "scriptWordOf w = filter keptChar (map caseFold w)"
proof -
  have "toLowerChar = caseFold" using toLowerChar_caseFold by (intro ext) simp
  moreover have "(\<lambda>c. isWordChar c \<or> isSpace c) = keptChar"
    using wordChar_or_space by (intro ext) simp
  ultimately show ?thesis by (simp add: scriptWordOf_def toLowerCase_def)
qed

lemma matchLoop_step:
  "i < e \<Longrightarrow> i < length ws \<Longrightarrow>
   matchLoop ws w e i =
     (if token_matches (ws ! i) w then Inr (Some i) else matchLoop ws w e (i + 1))"
  by (subst matchLoop.simps) (simp add: token_matches_def Let_def includesStr_sublist scriptWordOf_normalised)

lemma matchLoop_stop: "\<not> i < e \<Longrightarrow> matchLoop ws w e i = Inr None"
  by (subst matchLoop.simps) simp

lemma shift_all:
  fixes i :: nat
  shows "\<not> P i \<Longrightarrow>
    (\<forall>k. i \<le> k \<and> k < n \<longrightarrow> \<not> P k) \<longleftrightarrow> (\<forall>k. i + 1 \<le> k \<and> k < n \<longrightarrow> \<not> P k)"
proof (intro iffI allI impI)
  fix k
  assume "\<forall>k. i \<le> k \<and> k < n \<longrightarrow> \<not> P k" and "i + 1 \<le> k \<and> k < n"
  then show "\<not> P k" by simp
next
  fix k
  assume np: "\<not> P i" and h: "\<forall>k. i + 1 \<le> k \<and> k < n \<longrightarrow> \<not> P k" and k: "i \<le> k \<and> k < n"
  show "\<not> P k"
  proof (cases "k = i")
    case True
    with np show ?thesis by simp
  next
    case False
    with k have "i + 1 \<le> k \<and> k < n" by simp
    with h show ?thesis by blast
  qed
qed

lemma matchLoop_Some:
  "e \<le> length ws \<Longrightarrow>
   matchLoop ws w e i = Inr (Some j) \<longleftrightarrow>
     i \<le> j \<and> j < e \<and> token_matches (ws ! j) w
     \<and> (\<forall>k. i \<le> k \<and> k < j \<longrightarrow> \<not> token_matches (ws ! k) w)"
proof (induction ws w e i rule: matchLoop.induct)
  case (1 ws w e i)
  show ?case
  proof (cases "i < e")
    case False
    then show ?thesis by (auto simp: matchLoop_stop)
  next
    case True
    with "1.prems" have len: "i < length ws" by simp
    show ?thesis
    proof (cases "token_matches (ws ! i) w")
      case m: True
      have "j = i" if "i \<le> j" "\<forall>k. i \<le> k \<and> k < j \<longrightarrow> \<not> token_matches (ws ! k) w"
        using that m by (metis le_neq_implies_less order_refl)
      with m True show ?thesis
        by (auto simp: matchLoop_step [OF True len])
    next
      case m: False
      have ih: "matchLoop ws w e (i + 1) = Inr (Some j) \<longleftrightarrow>
          i + 1 \<le> j \<and> j < e \<and> token_matches (ws ! j) w
          \<and> (\<forall>k. i + 1 \<le> k \<and> k < j \<longrightarrow> \<not> token_matches (ws ! k) w)"
        using "1.IH" [OF True len refl] m "1.prems"
        by (simp add: token_matches_def Let_def includesStr_sublist scriptWordOf_normalised)
      have a: "i \<le> j \<and> token_matches (ws ! j) w \<longleftrightarrow> i + 1 \<le> j \<and> token_matches (ws ! j) w"
        using m by (cases "j = i") auto
      have b: "(\<forall>k. i \<le> k \<and> k < j \<longrightarrow> \<not> token_matches (ws ! k) w)
          \<longleftrightarrow> (\<forall>k. i + 1 \<le> k \<and> k < j \<longrightarrow> \<not> token_matches (ws ! k) w)"
        using m by (rule shift_all)
      show ?thesis
        unfolding matchLoop_step [OF True len] using m ih a b by auto
    qed
  qed
qed

lemma matchLoop_None:
  "e \<le> length ws \<Longrightarrow>
   matchLoop ws w e i = Inr None \<longleftrightarrow>
     (\<forall>k. i \<le> k \<and> k < e \<longrightarrow> \<not> token_matches (ws ! k) w)"
proof (induction ws w e i rule: matchLoop.induct)
  case (1 ws w e i)
  show ?case
  proof (cases "i < e")
    case False
    then show ?thesis by (auto simp: matchLoop_stop)
  next
    case True
    with "1.prems" have len: "i < length ws" by simp
    show ?thesis
    proof (cases "token_matches (ws ! i) w")
      case m: True
      with True show ?thesis
        by (auto simp: matchLoop_step [OF True len])
    next
      case m: False
      have ih: "matchLoop ws w e (i + 1) = Inr None \<longleftrightarrow>
          (\<forall>k. i + 1 \<le> k \<and> k < e \<longrightarrow> \<not> token_matches (ws ! k) w)"
        using "1.IH" [OF True len refl] m "1.prems"
        by (simp add: token_matches_def Let_def includesStr_sublist scriptWordOf_normalised)
      have b: "(\<forall>k. i \<le> k \<and> k < e \<longrightarrow> \<not> token_matches (ws ! k) w)
          \<longleftrightarrow> (\<forall>k. i + 1 \<le> k \<and> k < e \<longrightarrow> \<not> token_matches (ws ! k) w)"
        using m by (rule shift_all)
      show ?thesis
        unfolding matchLoop_step [OF True len] using m ih b by auto
    qed
  qed
qed

lemma matchLoop_no_error: "e \<le> length ws \<Longrightarrow> \<exists>r. matchLoop ws w e i = Inr r"
proof (induction ws w e i rule: matchLoop.induct)
  case (1 ws w e i)
  show ?case
  proof (cases "i < e")
    case False
    then show ?thesis by (simp add: matchLoop_stop)
  next
    case True
    with "1.prems" have len: "i < length ws" by simp
    show ?thesis
    proof (cases "token_matches (ws ! i) w")
      case m: True
      then show ?thesis by (simp add: matchLoop_step [OF True len])
    next
      case m: False
      then show ?thesis
        using "1.IH" [OF True len refl] "1.prems"
        by (simp add: matchLoop_step [OF True len] token_matches_def Let_def includesStr_sublist scriptWordOf_normalised)
    qed
  qed
qed


lemma words_script:
  "words ''one two three two four'' = [''one'', ''two'', ''three'', ''two'', ''four'']"
  by (simp add: words_def split_ws.simps isSpace_def trim_def)

lemmas match_eval =
  matchTextToScript_def lastSpokenWordOf_def matchLoop.simps scriptWordOf_def
  toLowerCase_def toLowerChar_def isWordChar_def isSpace_def




text \<open>
  What holds of every call: the index a call sets is never before the cursor value the
  call started from, and less than 50 tokens after it.
\<close>

lemma matchTextToScript_forward:
  "matchTextToScript ws c t = Inr (Some i) \<Longrightarrow> c \<le> i \<and> i < c + 50 \<and> i < length ws"
proof -
  assume a: "matchTextToScript ws c t = Inr (Some i)"
  have e: "min (length ws) (c + 50) \<le> length ws" by simp
  from a show ?thesis
    unfolding matchTextToScript_def Let_def matchLoop_Some [OF e] by simp
qed

text \<open>
  Claim C1, as the code has it. In the script of the example the word after
  \<open>three\<close> is a second \<open>two\<close>, at index 3. After \<open>three\<close> has set the cursor to 2, a
  call that starts from cursor 2 with the spoken word \<open>two\<close> does not go back to
  index 1: it finds the second \<open>two\<close> ahead and sets the cursor to 3.
\<close>

theorem script_example:
  "matchTextToScript (words ''one two three two four'') 0 ''three'' = Inr (Some 2)
   \<and> matchTextToScript (words ''one two three two four'') 2 ''two'' = Inr (Some 3)"
  by (simp add: words_script match_eval)

text \<open>
  Claim C1 as stated says that the second update finds nothing and leaves the cursor at
  2. The call does set the cursor, and not to 2: to 3 when it starts from the cursor 2,
  and to 1 when it starts from the cursor 0 that the recogniser's handler was created
  with.
\<close>

theorem script_example_not_unchanged:
  "matchTextToScript (words ''one two three two four'') 2 ''two'' \<noteq> Inr None
   \<and> matchTextToScript (words ''one two three two four'') 2 ''two'' \<noteq> Inr (Some 2)
   \<and> matchTextToScript (words ''one two three two four'') 0 ''two'' = Inr (Some 1)"
  by (simp add: words_script match_eval)


section \<open>Properties of the component\<close>

lemma currentWordIndex_speechEffect [simp]:
  "currentWordIndex (speechEffect s) = currentWordIndex s"
  by (simp add: speechEffect_def)

lemma text_speechEffect [simp]: "text' (speechEffect s) = text' s"
  by (simp add: speechEffect_def)

text \<open>
  Claim C2, as the code has it. An edit of the script stores the new text and leaves the
  cursor as it is: nothing in the component resets it. The tokens of the new text are
  the pieces between white space, without the empty ones.
\<close>

theorem setText_keeps_cursor:
  "currentWordIndex (setText v s) = currentWordIndex s
   \<and> text' (setText v s) = v
   \<and> words v = spec_tokens v"
  by (simp add: setText_def words_eq_spec_tokens)

text \<open>Claim C2 as stated fails: with the cursor at 2, an edit leaves it at 2, not at 0.\<close>

theorem setText_no_reset:
  "currentWordIndex
     (setText ''a b''
        \<lparr>text' = ''one two three'', isListening = False, mode = Smart,
         currentWordIndex = 2, handler = None\<rparr>) \<noteq> 0"
  by (simp add: setText_def)

text \<open>
  The handler of a running recogniser keeps the cursor of the render in which the effect
  ran. Whatever the state cell holds by now, each result is searched from that cursor, so
  the new cursor is the old one or lies in the 50 tokens after the handler's cursor.
\<close>

lemma resultsLoop_range:
  "currentWordIndex (resultsLoop h rs s) = currentWordIndex s
   \<or> (fst h \<le> currentWordIndex (resultsLoop h rs s)
       \<and> currentWordIndex (resultsLoop h rs s) < fst h + 50)"
proof (induction rs arbitrary: s)
  case Nil
  then show ?case by simp
next
  case (Cons r rs)
  show ?case
  proof (cases "matchTextToScript (snd h) (fst h) (trim (toLowerCase (transcript r)))")
    case (Inl e)
    then show ?thesis using Cons [of s] by simp
  next
    case (Inr o1)
    show ?thesis
    proof (cases o1)
      case None
      with Inr show ?thesis using Cons [of s] by simp
    next
      case (Some i)
      with Inr matchTextToScript_forward have "fst h \<le> i \<and> i < fst h + 50" by blast
      with Inr Some show ?thesis
        using Cons [of s] Cons [of "s\<lparr>currentWordIndex := i\<rparr>"] by auto
    qed
  qed
qed

text \<open>
  Claim C6, on a run of the component. The script is \<open>one two three\<close>, the cursor is 0
  and listening is switched on. The result \<open>three\<close> moves the cursor to 2. The next
  result \<open>two\<close> is handled by the same handler, which still searches from 0: it finds
  \<open>two\<close> at index 1 and the cursor goes back from 2 to 1. The same happens when
  one event carries both results: both calls see the cursor 0.
\<close>

theorem cursor_moves_back:
  "currentWordIndex
     (onresult 0 [\<lparr>isFinal = True, confidence = 0.9, transcript = ''three''\<rparr>]
        (toggleListening
           \<lparr>text' = ''one two three'', isListening = False, mode = Smart,
            currentWordIndex = 0, handler = None\<rparr>)) = 2
   \<and> currentWordIndex
     (onresult 0 [\<lparr>isFinal = True, confidence = 0.9, transcript = ''two''\<rparr>]
        (onresult 0 [\<lparr>isFinal = True, confidence = 0.9, transcript = ''three''\<rparr>]
           (toggleListening
              \<lparr>text' = ''one two three'', isListening = False, mode = Smart,
               currentWordIndex = 0, handler = None\<rparr>))) = 1
   \<and> currentWordIndex
     (onresult 0 [\<lparr>isFinal = True, confidence = 0.9, transcript = ''three''\<rparr>,
                  \<lparr>isFinal = True, confidence = 0.9, transcript = ''two''\<rparr>]
        (toggleListening
           \<lparr>text' = ''one two three'', isListening = False, mode = Smart,
            currentWordIndex = 0, handler = None\<rparr>)) = 1"
  by (simp add: onresult_def toggleListening_def speechEffect_def words_def split_ws.simps
      trim_def match_eval)


section \<open>Properties of the voice activation\<close>

lemma clearTimeout_all:
  "\<forall>(h', due)\<in>set ts. h' = h \<Longrightarrow> clearTimeout h ts = []"
  by (induction ts) (auto simp: clearTimeout_def)

lemma inv_init: "inv (0, None, initialVolume)"
  by (simp add: inv_def initialVolume_def)

lemma inv_timeouts_ref:
  "inv (c, la, s) \<Longrightarrow> silenceTimerRef s = Some h \<Longrightarrow> clearTimeout h (timeouts s) = []"
  by (rule clearTimeout_all) (auto simp: inv_def)

lemma inv_timeouts_none: "inv (c, la, s) \<Longrightarrow> silenceTimerRef s = None \<Longrightarrow> timeouts s = []"
  by (cases "timeouts s") (auto simp: inv_def)

lemma inv_frame:
  assumes i: "inv (c, la, s)" and t: "c \<le> t"
  shows "inv (t, (if above sens d then Some t else la), analyze sens t d s)"
proof (cases "above sens d")
  case True
  show ?thesis
  proof (cases "silenceTimerRef s")
    case None
    with i have "timeouts s = []" by (rule inv_timeouts_none)
    with True None show ?thesis by (simp add: inv_def analyze_def)
  next
    case (Some h)
    with i have "clearTimeout h (timeouts s) = []" by (rule inv_timeouts_ref)
    with True Some show ?thesis by (simp add: inv_def analyze_def)
  qed
next
  case False
  show ?thesis
  proof (cases "silenceTimerRef s = None \<and> voiceActive s")
    case True
    with i have e: "timeouts s = []" by (auto intro: inv_timeouts_none)
    from i True obtain tA where la: "la = Some tA" "tA \<le> c" by (auto simp: inv_def)
    with False True e t show ?thesis by (simp add: inv_def analyze_def)
  next
    case no: False
    then have a: "analyze sens t d s = s" using False by (auto simp: analyze_def)
    from i t show ?thesis unfolding a using False by (fastforce simp: inv_def)
  qed
qed

lemma inv_timeout:
  assumes i: "inv (c, la, s)" and t: "c \<le> t" and p: "(h, due) \<in> set (timeouts s)"
  shows "inv (t, la, timeoutFires h s)"
proof -
  from i p have "silenceTimerRef s = Some h" by (auto simp: inv_def)
  with i have "clearTimeout h (timeouts s) = []" by (rule inv_timeouts_ref)
  with i t show ?thesis by (auto simp: inv_def timeoutFires_def)
qed

lemma inv_step: "inv cfg \<Longrightarrow> step sens e cfg = Some cfg' \<Longrightarrow> inv cfg'"
proof -
  assume i: "inv cfg" and s: "step sens e cfg = Some cfg'"
  obtain c la st where cfg: "cfg = (c, la, st)" by (cases cfg)
  show ?thesis
  proof (cases e)
    case (Frame t d)
    with s cfg have "c \<le> t"
      and "cfg' = (t, (if above sens d then Some t else la), analyze sens t d st)"
      by (auto split: if_splits)
    with i cfg show ?thesis by (simp add: inv_frame)
  next
    case (Timeout t h)
    with s cfg have t: "c \<le> t" and ex: "list_ex (\<lambda>(h', due). h' = h \<and> due \<le> t) (timeouts st)"
      and c': "cfg' = (t, la, timeoutFires h st)"
      by (auto split: if_splits)
    from ex obtain due where "(h, due) \<in> set (timeouts st)" by (auto simp: list_ex_iff)
    with i cfg t c' show ?thesis by (simp add: inv_timeout)
  qed
qed

lemma inv_run: "inv cfg \<Longrightarrow> run sens es cfg = Some cfg' \<Longrightarrow> inv cfg'"
proof (induction es arbitrary: cfg)
  case Nil
  then show ?case by simp
next
  case (Cons e es)
  then show ?case by (auto split: option.splits dest: inv_step)
qed

lemma rising_edge:
  assumes "step sens e (c, la, s) = Some (c', la', s')" "\<not> voiceActive s" "voiceActive s'"
  shows "\<exists>d. e = Frame c' d \<and> above sens d"
proof (cases e)
  case (Frame t d)
  with assms show ?thesis by (auto simp: analyze_def split: if_splits option.splits)
next
  case (Timeout t h)
  with assms show ?thesis by (auto simp: timeoutFires_def split: if_splits)
qed

lemma falling_edge:
  assumes i: "inv (c, la, s)"
    and st: "step sens e (c, la, s) = Some (c', la', s')" and "voiceActive s" "\<not> voiceActive s'"
  shows "\<exists>h tA. e = Timeout c' h \<and> la = Some tA \<and> tA + 600 \<le> c'"
proof (cases e)
  case (Frame t d)
  with assms show ?thesis by (auto simp: analyze_def split: if_splits option.splits)
next
  case (Timeout t h)
  with st have t: "c' = t" and ex: "list_ex (\<lambda>(h', due). h' = h \<and> due \<le> t) (timeouts s)"
    by (auto split: if_splits)
  from ex obtain due where d: "(h, due) \<in> set (timeouts s)" "due \<le> t" by (auto simp: list_ex_iff)
  with i obtain tA where "la = Some tA" "tA + 600 \<le> due" by (auto simp: inv_def)
  with d t Timeout show ?thesis by auto
qed

lemma below_pending:
  assumes i: "inv (c, la, s)" and "voiceActive s" "c \<le> t" "\<not> above sens d"
  shows "\<exists>h due. timeouts (analyze sens t d s) = [(h, due)] \<and> due \<le> t + 600"
proof (cases "silenceTimerRef s")
  case None
  with i have "timeouts s = []" by (rule inv_timeouts_none)
  with None assms show ?thesis by (simp add: analyze_def)
next
  case (Some h)
  with assms have a: "analyze sens t d s = s" by (simp add: analyze_def)
  from i Some assms have ne: "timeouts s \<noteq> []" by (auto simp: inv_def)
  from i have "length (timeouts s) \<le> 1" by (simp add: inv_def)
  with ne obtain x where x: "timeouts s = [x]" by (cases "timeouts s") auto
  obtain h' due where hd: "x = (h', due)" by (cases x)
  with i x have "due \<le> c + 600" by (auto simp: inv_def)
  with assms x hd a show ?thesis by simp
qed


lemma run_append:
  "run sens (xs @ ys) c = (case run sens xs c of None \<Rightarrow> None | Some c' \<Rightarrow> run sens ys c')"
  by (induction xs arbitrary: c) (simp_all split: option.splits)

lemma edges_append:
  "edges sens (xs @ ys) c
     = edges sens xs c @ (case run sens xs c of None \<Rightarrow> [] | Some c' \<Rightarrow> edges sens ys c')"
  by (induction xs arbitrary: c) (simp_all split: option.splits)

lemma analyze_active: "voiceActive s \<Longrightarrow> voiceActive (analyze sens t d s)"
  by (simp add: analyze_def split: option.splits)

lemma frames_active:
  "voiceActive s \<Longrightarrow> run sens (map (\<lambda>(t, d). Frame t d) fs) (c, la, s) = Some (c', la', s') \<Longrightarrow>
   voiceActive s' \<and> edges sens (map (\<lambda>(t, d). Frame t d) fs) (c, la, s) = []"
proof (induction fs arbitrary: c la s)
  case Nil
  then show ?case by simp
next
  case (Cons f fs)
  obtain t d where f: "f = (t, d)" by (cases f)
  from Cons.prems(2) f have ct: "c \<le> t"
    and r: "run sens (map (\<lambda>(t, d). Frame t d) fs)
              (t, (if above sens d then Some t else la), analyze sens t d s) = Some (c', la', s')"
    by (auto split: if_splits)
  have a: "voiceActive (analyze sens t d s)" using Cons.prems(1) by (rule analyze_active)
  from Cons.IH [OF a r] a Cons.prems(1) f ct show ?case by simp
qed

lemma frames_lastAbove:
  "run sens (map (\<lambda>(t, d). Frame t d) fs) (c, la, s) = Some (c', la', s') \<Longrightarrow>
   la' = (if filter (\<lambda>(t, d). above sens d) fs = [] then la
          else Some (fst (last (filter (\<lambda>(t, d). above sens d) fs))))"
proof (induction fs arbitrary: c la s)
  case Nil
  then show ?case by simp
next
  case (Cons f fs)
  obtain t d where f: "f = (t, d)" by (cases f)
  from Cons.prems f have
    r: "run sens (map (\<lambda>(t, d). Frame t d) fs)
              (t, (if above sens d then Some t else la), analyze sens t d s) = Some (c', la', s')"
    by (auto split: if_splits)
  from Cons.IH [OF r] f show ?case by simp
qed

lemma excursion:
  assumes reach: "inv (c0, la0, s0)" and off: "\<not> voiceActive s0" and d0: "above sens d0"
    and lastq: "\<not> above sens (snd (last ((a, d0) # fs)))"
    and r: "run sens (map (\<lambda>(t, d). Frame t d) ((a, d0) # fs)) (c0, la0, s0) = Some (c1, la1, s1)"
  shows "voiceActive s1
     \<and> edges sens (map (\<lambda>(t, d). Frame t d) ((a, d0) # fs)) (c0, la0, s0) = [(a, True)]
     \<and> (\<exists>h due tA. timeouts s1 = [(h, due)] \<and> la1 = Some tA
          \<and> tA = fst (last (filter (\<lambda>(t, d). above sens d) ((a, d0) # fs)))
          \<and> tA + 600 \<le> due \<and> due \<le> c1 + 600
          \<and> (\<forall>T. c1 \<le> T \<and> due \<le> T \<longrightarrow>
               (\<exists>s2. run sens (map (\<lambda>(t, d). Frame t d) ((a, d0) # fs) @ [Timeout T h]) (c0, la0, s0)
                       = Some (T, Some tA, s2)
                     \<and> \<not> voiceActive s2 \<and> timeouts s2 = []
                     \<and> edges sens (map (\<lambda>(t, d). Frame t d) ((a, d0) # fs) @ [Timeout T h])
                         (c0, la0, s0) = [(a, True), (T, False)])))"
proof -
  let ?F = "\<lambda>(t, d). Frame t d"
  let ?sA = "analyze sens a d0 s0"
  from d0 lastq have ne: "fs \<noteq> []" by auto
  then obtain mid x where "fs = mid @ [x]" by (metis rev_exhaust)
  then obtain q dq where fs: "fs = mid @ [(q, dq)]" by (cases x) auto
  with lastq have dq: "\<not> above sens dq" by simp
  from r d0 have c0a: "c0 \<le> a"
    and r1: "run sens (map ?F fs) (a, Some a, ?sA) = Some (c1, la1, s1)"
    by (auto split: if_splits)
  have actA: "voiceActive ?sA" using d0 by (simp add: analyze_def split: option.splits)
  have invA: "inv (a, Some a, ?sA)" using inv_frame [OF reach c0a, of sens d0] d0 by simp
  from r1 fs obtain cm lam sm
    where rm: "run sens (map ?F mid) (a, Some a, ?sA) = Some (cm, lam, sm)"
      and stq: "step sens (Frame q dq) (cm, lam, sm) = Some (c1, la1, s1)"
    by (auto simp: run_append split: option.splits)
  from frames_active [OF actA rm] have actm: "voiceActive sm" by simp
  from invA rm have invm: "inv (cm, lam, sm)" by (rule inv_run)
  from stq dq have cq: "cm \<le> q" and c1: "c1 = q" and s1: "s1 = analyze sens q dq sm"
    by (auto split: if_splits)
  from below_pending [OF invm actm cq dq] s1 obtain h due
    where td: "timeouts s1 = [(h, due)]" and due: "due \<le> q + 600" by auto
  have act1: "voiceActive s1" unfolding s1 using actm by (rule analyze_active)
  from invm stq have inv1: "inv (c1, la1, s1)" by (rule inv_step)
  with td obtain tA where la1: "la1 = Some tA" and tA: "tA + 600 \<le> due" by (auto simp: inv_def)
  from frames_lastAbove [OF r] d0 la1
  have tAl: "tA = fst (last (filter (\<lambda>(t, d). above sens d) ((a, d0) # fs)))" by simp
  have e1: "edges sens (map ?F ((a, d0) # fs)) (c0, la0, s0) = [(a, True)]"
    using frames_active [OF actA r1] c0a d0 off actA by simp
  have fire: "\<exists>s2. run sens (map ?F ((a, d0) # fs) @ [Timeout T h]) (c0, la0, s0)
                       = Some (T, Some tA, s2)
                     \<and> \<not> voiceActive s2 \<and> timeouts s2 = []
                     \<and> edges sens (map ?F ((a, d0) # fs) @ [Timeout T h])
                         (c0, la0, s0) = [(a, True), (T, False)]"
    if T: "c1 \<le> T" "due \<le> T" for T
  proof -
    have st: "step sens (Timeout T h) (c1, la1, s1) = Some (T, Some tA, timeoutFires h s1)"
      using T td la1 by simp
    have v: "\<not> voiceActive (timeoutFires h s1)" by (simp add: timeoutFires_def)
    have e: "timeouts (timeoutFires h s1) = []" using td by (simp add: timeoutFires_def clearTimeout_def)
    have ru: "run sens (map ?F ((a, d0) # fs) @ [Timeout T h]) (c0, la0, s0)
        = Some (T, Some tA, timeoutFires h s1)"
      unfolding run_append r using st by simp
    have ed: "edges sens (map ?F ((a, d0) # fs) @ [Timeout T h]) (c0, la0, s0)
        = [(a, True), (T, False)]"
      unfolding edges_append r e1 using st act1 v by simp
    from ru v e ed show ?thesis by blast
  qed
  from act1 e1 td la1 tAl tA due c1 fire show ?thesis by blast
qed


text \<open>
  Claim C4. The threshold is \<open>55 - 0.4 s\<close>; a frame is above it when it has samples
  and their average, which is their sum divided by their number, exceeds it. A frame
  that is above the threshold makes the component active in that very step, clears the
  ref and cancels the timeout the ref named. A frame at or below it arms one timeout,
  600 ms ahead, when the component is active and the ref is empty, and changes nothing
  otherwise. A timeout that fires leaves the component inactive. In every configuration
  that a run from the freshly mounted component reaches: at most one timeout is pending;
  a frame at or below the threshold leaves an active component with exactly one timeout
  pending, due within 600 ms; the component becomes active only at a frame above the
  threshold, and inactive only when the timeout fires, which is 600 ms or more after the
  last frame above the threshold.

  One excursion: the component is inactive in a configuration that a run has reached,
  and then come frames of which the first, at the time \<open>a\<close>, is above the threshold and
  the last is not. Then the component is active, the only change of \<open>voiceActive\<close>
  along these frames is the one to \<open>True\<close> at \<open>a\<close>, and exactly one timeout is
  pending, due 600 ms or more after the last of the frames above the threshold. Whenever
  it fires, the run goes on to an inactive component with no timeout pending, and the
  changes of \<open>voiceActive\<close> are two: to \<open>True\<close> at \<open>a\<close>, and to \<open>False\<close> when the
  timeout fires.
\<close>

theorem voice_activity:
  "threshold sens = 55 - 0.4 * rat_of_nat sens
   \<and> (above sens d \<longleftrightarrow> d \<noteq> [] \<and> threshold sens < average d)
   \<and> (above sens d \<longleftrightarrow>
        d \<noteq> [] \<and> (55 - 0.4 * rat_of_nat sens) * rat_of_nat (length d)
                    < rat_of_nat (sum_list (map unat d)))
   \<and> (above sens d \<longrightarrow>
        voiceActive (analyze sens t d s) \<and> silenceTimerRef (analyze sens t d s) = None
        \<and> (\<forall>h due. silenceTimerRef s = Some h \<longrightarrow>
              (h, due) \<notin> set (timeouts (analyze sens t d s))))
   \<and> (\<not> above sens d \<longrightarrow>
        analyze sens t d s =
          (if silenceTimerRef s = None \<and> voiceActive s
           then s\<lparr>silenceTimerRef := Some (nextHandle s),
                  timeouts := timeouts s @ [(nextHandle s, t + 600)],
                  nextHandle := nextHandle s + 1\<rparr>
           else s))
   \<and> (step sens (Timeout T h) (c, la, st) = Some (c', la', st') \<longrightarrow>
        \<not> voiceActive st' \<and> c' = T \<and> la' = la
        \<and> (\<exists>due. (h, due) \<in> set (timeouts st) \<and> due \<le> T)
        \<and> (\<forall>due. (h, due) \<notin> set (timeouts st')))
   \<and> (run sens es (0, None, initialVolume) = Some (c, la, st) \<longrightarrow>
        length (timeouts st) \<le> 1
        \<and> (voiceActive st \<and> c \<le> t \<and> \<not> above sens d \<longrightarrow>
             (\<exists>h due. timeouts (analyze sens t d st) = [(h, due)] \<and> due \<le> t + 600))
        \<and> (step sens e (c, la, st) = Some (c', la', st') \<longrightarrow>
             (\<not> voiceActive st \<and> voiceActive st' \<longrightarrow>
                (\<exists>d'. e = Frame c' d' \<and> above sens d'))
             \<and> (voiceActive st \<and> \<not> voiceActive st' \<longrightarrow>
                (\<exists>h tA. e = Timeout c' h \<and> la = Some tA \<and> tA + 600 \<le> c'))))
   \<and> (run sens pre (0, None, initialVolume) = Some (c0, la0, s0) \<and> \<not> voiceActive s0
        \<and> above sens d0 \<and> \<not> above sens (snd (last ((a, d0) # fs)))
        \<and> run sens (map (\<lambda>(t, d). Frame t d) ((a, d0) # fs)) (c0, la0, s0) = Some (c1, la1, s1)
      \<longrightarrow>
        voiceActive s1
        \<and> edges sens (map (\<lambda>(t, d). Frame t d) ((a, d0) # fs)) (c0, la0, s0) = [(a, True)]
        \<and> (\<exists>h due tA. timeouts s1 = [(h, due)] \<and> la1 = Some tA
              \<and> tA = fst (last (filter (\<lambda>(t, d). above sens d) ((a, d0) # fs)))
              \<and> tA + 600 \<le> due \<and> due \<le> c1 + 600
              \<and> (\<forall>T. c1 \<le> T \<and> due \<le> T \<longrightarrow>
                   (\<exists>s2. run sens (map (\<lambda>(t, d). Frame t d) ((a, d0) # fs) @ [Timeout T h])
                            (c0, la0, s0) = Some (T, Some tA, s2)
                         \<and> \<not> voiceActive s2 \<and> timeouts s2 = []
                         \<and> edges sens (map (\<lambda>(t, d). Frame t d) ((a, d0) # fs) @ [Timeout T h])
                             (c0, la0, s0) = [(a, True), (T, False)]))))"
proof -
  have ab: "above sens d \<longleftrightarrow> d \<noteq> [] \<and> threshold sens < average d"
    by (simp add: above_def)
  have thr: "threshold sens = 55 - 0.4 * rat_of_nat sens"
    by (simp add: threshold_def)
  have sum: "above sens d \<longleftrightarrow>
        d \<noteq> [] \<and> (55 - 0.4 * rat_of_nat sens) * rat_of_nat (length d)
                    < rat_of_nat (sum_list (map unat d))"
  proof (cases "d = []")
    case True
    then show ?thesis by (simp add: above_def)
  next
    case False
    then have "0 < rat_of_nat (length d)" by simp
    then have "threshold sens < average d \<longleftrightarrow>
        threshold sens * rat_of_nat (length d) < rat_of_nat (sum_list (map unat d))"
      unfolding average_def by (rule pos_less_divide_eq)
    with False show ?thesis unfolding above_def thr by simp
  qed
  have above: "above sens d \<longrightarrow>
        voiceActive (analyze sens t d s) \<and> silenceTimerRef (analyze sens t d s) = None
        \<and> (\<forall>h due. silenceTimerRef s = Some h \<longrightarrow>
              (h, due) \<notin> set (timeouts (analyze sens t d s)))"
    by (auto simp: analyze_def clearTimeout_def split: option.splits)
  have below: "\<not> above sens d \<longrightarrow>
        analyze sens t d s =
          (if silenceTimerRef s = None \<and> voiceActive s
           then s\<lparr>silenceTimerRef := Some (nextHandle s),
                  timeouts := timeouts s @ [(nextHandle s, t + 600)],
                  nextHandle := nextHandle s + 1\<rparr>
           else s)"
    by (simp add: analyze_def)
  have fires: "step sens (Timeout T h) (c, la, st) = Some (c', la', st') \<longrightarrow>
        \<not> voiceActive st' \<and> c' = T \<and> la' = la
        \<and> (\<exists>due. (h, due) \<in> set (timeouts st) \<and> due \<le> T)
        \<and> (\<forall>due. (h, due) \<notin> set (timeouts st'))"
    by (auto simp: timeoutFires_def clearTimeout_def list_ex_iff split: if_splits)
  have reach: "length (timeouts st) \<le> 1
        \<and> (voiceActive st \<and> c \<le> t \<and> \<not> above sens d \<longrightarrow>
             (\<exists>h due. timeouts (analyze sens t d st) = [(h, due)] \<and> due \<le> t + 600))
        \<and> (step sens e (c, la, st) = Some (c', la', st') \<longrightarrow>
             (\<not> voiceActive st \<and> voiceActive st' \<longrightarrow>
                (\<exists>d'. e = Frame c' d' \<and> above sens d'))
             \<and> (voiceActive st \<and> \<not> voiceActive st' \<longrightarrow>
                (\<exists>h tA. e = Timeout c' h \<and> la = Some tA \<and> tA + 600 \<le> c')))"
    if r: "run sens es (0, None, initialVolume) = Some (c, la, st)"
  proof -
    from inv_init r have i: "inv (c, la, st)" by (rule inv_run)
    then have one: "length (timeouts st) \<le> 1" by (simp add: inv_def)
    have pend: "voiceActive st \<and> c \<le> t \<and> \<not> above sens d \<longrightarrow>
             (\<exists>h due. timeouts (analyze sens t d st) = [(h, due)] \<and> due \<le> t + 600)"
      using below_pending [OF i, where t = t and d = d and sens = sens] by auto
    have rise: "\<exists>d'. e = Frame c' d' \<and> above sens d'"
      if "step sens e (c, la, st) = Some (c', la', st')" "\<not> voiceActive st" "voiceActive st'"
      using that by (rule rising_edge)
    have fall: "\<exists>h tA. e = Timeout c' h \<and> la = Some tA \<and> tA + 600 \<le> c'"
      if "step sens e (c, la, st) = Some (c', la', st')" "voiceActive st" "\<not> voiceActive st'"
      using i that by (rule falling_edge)
    from one pend rise fall show ?thesis by blast
  qed
  have exc: "voiceActive s1
        \<and> edges sens (map (\<lambda>(t, d). Frame t d) ((a, d0) # fs)) (c0, la0, s0) = [(a, True)]
        \<and> (\<exists>h due tA. timeouts s1 = [(h, due)] \<and> la1 = Some tA
              \<and> tA = fst (last (filter (\<lambda>(t, d). above sens d) ((a, d0) # fs)))
              \<and> tA + 600 \<le> due \<and> due \<le> c1 + 600
              \<and> (\<forall>T. c1 \<le> T \<and> due \<le> T \<longrightarrow>
                   (\<exists>s2. run sens (map (\<lambda>(t, d). Frame t d) ((a, d0) # fs) @ [Timeout T h])
                            (c0, la0, s0) = Some (T, Some tA, s2)
                         \<and> \<not> voiceActive s2 \<and> timeouts s2 = []
                         \<and> edges sens (map (\<lambda>(t, d). Frame t d) ((a, d0) # fs) @ [Timeout T h])
                             (c0, la0, s0) = [(a, True), (T, False)])))"
    if h: "run sens pre (0, None, initialVolume) = Some (c0, la0, s0) \<and> \<not> voiceActive s0
        \<and> above sens d0 \<and> \<not> above sens (snd (last ((a, d0) # fs)))
        \<and> run sens (map (\<lambda>(t, d). Frame t d) ((a, d0) # fs)) (c0, la0, s0) = Some (c1, la1, s1)"
  proof -
    from h have r0: "run sens pre (0, None, initialVolume) = Some (c0, la0, s0)" by simp
    from inv_init r0 have i: "inv (c0, la0, s0)" by (rule inv_run)
    from h have off: "\<not> voiceActive s0" and d0: "above sens d0"
      and lastq: "\<not> above sens (snd (last ((a, d0) # fs)))"
      and r: "run sens (map (\<lambda>(t, d). Frame t d) ((a, d0) # fs)) (c0, la0, s0) = Some (c1, la1, s1)"
      by blast+
    from i off d0 lastq r show ?thesis by (rule excursion)
  qed
  have reach': "run sens es (0, None, initialVolume) = Some (c, la, st) \<longrightarrow>
        length (timeouts st) \<le> 1
        \<and> (voiceActive st \<and> c \<le> t \<and> \<not> above sens d \<longrightarrow>
             (\<exists>h due. timeouts (analyze sens t d st) = [(h, due)] \<and> due \<le> t + 600))
        \<and> (step sens e (c, la, st) = Some (c', la', st') \<longrightarrow>
             (\<not> voiceActive st \<and> voiceActive st' \<longrightarrow>
                (\<exists>d'. e = Frame c' d' \<and> above sens d'))
             \<and> (voiceActive st \<and> \<not> voiceActive st' \<longrightarrow>
                (\<exists>h tA. e = Timeout c' h \<and> la = Some tA \<and> tA + 600 \<le> c')))"
    using reach by (rule impI)
  note exc' = exc [THEN impI [rotated]]
  from thr ab sum above below fires reach' exc' show ?thesis by (intro conjI)
qed

text \<open>
  A run at sensitivity 20 (threshold 47): silence, a loud frame at 16 ms, silence at 33
  and 50 ms, and the timeout armed at 33 ms firing at 633 ms. The observer sees the
  cell become \<open>True\<close> at 16 ms and \<open>False\<close> at 633 ms, and nothing else.
\<close>

theorem voice_activity_witness:
  "run 20 [Frame 0 [0], Frame 16 [200], Frame 33 [0], Frame 50 [0]] (0, None, initialVolume)
     = Some (50, Some 16,
         \<lparr>voiceActive = True, silenceTimerRef = Some 1, timeouts = [(1, 633)], nextHandle = 2\<rparr>)
   \<and> step 20 (Timeout 633 1)
        (50, Some 16,
         \<lparr>voiceActive = True, silenceTimerRef = Some 1, timeouts = [(1, 633)], nextHandle = 2\<rparr>)
     = Some (633, Some 16,
         \<lparr>voiceActive = False, silenceTimerRef = Some 1, timeouts = [], nextHandle = 2\<rparr>)
   \<and> (16 :: nat) + 600 \<le> 633
   \<and> threshold 20 = 47
   \<and> above 20 [200] \<and> \<not> above 20 [0]
   \<and> edges 20 [Frame 16 [200], Frame 33 [0], Frame 50 [0]] (0, None, initialVolume)
       = [(16, True)]
   \<and> edges 20 [Frame 16 [200], Frame 33 [0], Frame 50 [0], Timeout 633 1] (0, None, initialVolume)
       = [(16, True), (633, False)]"
proof -
  let ?st = "\<lparr>voiceActive = True, silenceTimerRef = Some 1, timeouts = [(1, 633)], nextHandle = 2\<rparr>"
  let ?st' = "\<lparr>voiceActive = False, silenceTimerRef = Some 1, timeouts = [], nextHandle = 2\<rparr>"
  let ?es = "[Frame 0 [0], Frame 16 [200], Frame 33 [0], Frame 50 [0]]"
  let ?fs = "[(33, [0]), (50, [0])] :: (nat \<times> byte list) list"
  have r: "run 20 ?es (0, None, initialVolume) = Some (50, Some 16, ?st)"
    by (simp add: initialVolume_def analyze_def above_def average_def threshold_def)
  have r': "run 20 (map (\<lambda>(t, d). Frame t d) ((16, [200]) # ?fs)) (0, None, initialVolume)
      = Some (50, Some 16, ?st)"
    by (simp add: initialVolume_def analyze_def above_def average_def threshold_def)
  have s: "step 20 (Timeout 633 1) (50, Some 16, ?st) = Some (633, Some 16, ?st')"
    by (simp add: timeoutFires_def clearTimeout_def)
  note th = voice_activity [where sens = 20 and d = "[0]" and t = 700 and s = ?st and es = ?es
      and c = 50 and la = "Some 16" and st = ?st and e = "Timeout 633 1" and c' = 633
      and la' = "Some 16" and st' = ?st' and T = 633 and h = 1
      and pre = "[]" and ?c0.0 = 0 and ?la0.0 = None and ?s0.0 = initialVolume
      and ?d0.0 = "[200]" and a = 16 and fs = ?fs and ?c1.0 = 50 and ?la1.0 = "Some 16"
      and ?s1.0 = ?st]
  have thr: "threshold 20 = 47" using th [THEN conjunct1] by simp
  have lo: "above 20 [200]" and qu: "\<not> above 20 [0]"
    by (simp_all add: above_def average_def threshold_def)
  from th r s have "\<exists>h tA. Timeout 633 1 = Timeout 633 h \<and> Some (16::nat) = Some tA \<and> tA + 600 \<le> 633"
    by simp
  then have le: "(16 :: nat) + 600 \<le> 633" by simp
  have hyp: "run 20 [] (0, None, initialVolume) = Some (0, None, initialVolume)
        \<and> \<not> voiceActive initialVolume
        \<and> above 20 [200] \<and> \<not> above 20 (snd (last ((16, [200]) # ?fs)))
        \<and> run 20 (map (\<lambda>(t, d). Frame t d) ((16, [200]) # ?fs)) (0, None, initialVolume)
            = Some (50, Some 16, ?st)"
    using r' lo qu by (simp add: initialVolume_def)
  from th [THEN conjunct2, THEN conjunct2, THEN conjunct2, THEN conjunct2, THEN conjunct2,
      THEN conjunct2, THEN conjunct2, THEN mp, OF hyp]
  have e1: "edges 20 (map (\<lambda>(t, d). Frame t d) ((16, [200]) # ?fs)) (0, None, initialVolume)
        = [(16, True)]"
    and ex: "\<exists>h due tA. timeouts ?st = [(h, due)] \<and> Some 16 = Some tA
              \<and> tA = fst (last (filter (\<lambda>(t, d). above 20 d) ((16, [200]) # ?fs)))
              \<and> tA + 600 \<le> due \<and> due \<le> 50 + 600
              \<and> (\<forall>T. 50 \<le> T \<and> due \<le> T \<longrightarrow>
                   (\<exists>s2. run 20 (map (\<lambda>(t, d). Frame t d) ((16, [200]) # ?fs) @ [Timeout T h])
                            (0, None, initialVolume) = Some (T, Some tA, s2)
                         \<and> \<not> voiceActive s2 \<and> timeouts s2 = []
                         \<and> edges 20 (map (\<lambda>(t, d). Frame t d) ((16, [200]) # ?fs) @ [Timeout T h])
                             (0, None, initialVolume) = [(16, True), (T, False)]))"
    by blast+
  from ex obtain h due tA where hd: "timeouts ?st = [(h, due)]"
    and all: "\<forall>T. 50 \<le> T \<and> due \<le> T \<longrightarrow>
                   (\<exists>s2. run 20 (map (\<lambda>(t, d). Frame t d) ((16, [200]) # ?fs) @ [Timeout T h])
                            (0, None, initialVolume) = Some (T, Some tA, s2)
                         \<and> \<not> voiceActive s2 \<and> timeouts s2 = []
                         \<and> edges 20 (map (\<lambda>(t, d). Frame t d) ((16, [200]) # ?fs) @ [Timeout T h])
                             (0, None, initialVolume) = [(16, True), (T, False)])"
    by blast
  from hd have h1: "h = 1" and d633: "due = 633" by simp_all
  have T: "50 \<le> (633 :: nat) \<and> due \<le> 633" using d633 by simp
  from all [THEN spec, of 633, THEN mp, OF T]
  have "edges 20 (map (\<lambda>(t, d). Frame t d) ((16, [200]) # ?fs) @ [Timeout 633 h])
      (0, None, initialVolume) = [(16, True), (633, False)]"
    by blast
  then have e2: "edges 20 (map (\<lambda>(t, d). Frame t d) ((16, [200]) # ?fs) @ [Timeout 633 1])
      (0, None, initialVolume) = [(16, True), (633, False)]"
    unfolding h1 .
  have m1: "map (\<lambda>(t, d). Frame t d) ((16, [200]) # ?fs)
      = [Frame 16 [200], Frame 33 [0], Frame 50 [0]]" by simp
  have m2: "map (\<lambda>(t, d). Frame t d) ((16, [200]) # ?fs) @ [Timeout 633 1]
      = [Frame 16 [200], Frame 33 [0], Frame 50 [0], Timeout 633 1]" by simp
  from e1 have e1': "edges 20 [Frame 16 [200], Frame 33 [0], Frame 50 [0]] (0, None, initialVolume)
       = [(16, True)]" unfolding m1 .
  from e2 have e2': "edges 20 [Frame 16 [200], Frame 33 [0], Frame 50 [0], Timeout 633 1]
       (0, None, initialVolume) = [(16, True), (633, False)]" unfolding m2 .
  from r s le thr lo qu e1' e2' show ?thesis by (intro conjI)
qed


section \<open>Properties of the recording\<close>

lemma upt_2: "[0..<2] = [0, 1]" and upt_4: "[0..<4] = [0, 1, 2, 3]"
  by (simp_all add: numeral_eq_Suc)

lemma fixedWidth_2: "fixedWidth 2 n = [digitChar (n div 10 mod 10), digitChar (n mod 10)]"
  by (simp add: fixedWidth_def upt_2)

lemma fixedWidth_4:
  "fixedWidth 4 n = [digitChar (n div 1000 mod 10), digitChar (n div 100 mod 10),
                     digitChar (n div 10 mod 10), digitChar (n mod 10)]"
  by (simp add: fixedWidth_def upt_4)

lemma numberToString_digit: "n < 10 \<Longrightarrow> numberToString n = [digitChar n]"
  by (subst numberToString.simps) simp

lemma numberToString_more:
  "10 \<le> n \<Longrightarrow> numberToString n = numberToString (n div 10) @ [digitChar (n mod 10)]"
  by (subst numberToString.simps) simp

lemma numberToString_2: "10 \<le> n \<Longrightarrow> n < 100 \<Longrightarrow> numberToString n = fixedWidth 2 n"
  by (simp add: numberToString_more numberToString_digit fixedWidth_2)

lemma padStart_2: "n < 100 \<Longrightarrow> padStart 2 (CHR ''0'') (numberToString n) = fixedWidth 2 n"
proof (cases "n < 10")
  case True
  then show ?thesis
    by (simp add: padStart_def numberToString_digit fixedWidth_2 digitChar_def)
next
  case False
  assume "n < 100"
  with False show ?thesis by (simp add: padStart_def numberToString_2 fixedWidth_2)
qed

lemma numberToString_4:
  assumes "1000 \<le> n" and "n \<le> 9999"
  shows "numberToString n = fixedWidth 4 n"
proof -
  have d100: "n div 10 div 10 = n div 100" using div_mult2_eq [of n 10 10] by simp
  have d1000: "n div 100 div 10 = n div 1000" using div_mult2_eq [of n 100 10] by simp
  have a: "numberToString n = numberToString (n div 10) @ [digitChar (n mod 10)]"
    using assms by (intro numberToString_more) simp
  have b: "numberToString (n div 10) = numberToString (n div 10 div 10) @ [digitChar (n div 10 mod 10)]"
    using assms by (intro numberToString_more) simp
  have c: "numberToString (n div 100) = numberToString (n div 100 div 10) @ [digitChar (n div 100 mod 10)]"
    using assms by (intro numberToString_more) simp
  have d: "numberToString (n div 1000) = [digitChar (n div 1000)]"
    using assms by (intro numberToString_digit) simp
  have e: "n div 1000 mod 10 = n div 1000" using assms by simp
  show ?thesis
    unfolding a b d100 c d1000 d fixedWidth_4 e by simp
qed

lemma timestamp_pattern:
  assumes "1000 \<le> getFullYear now" "getFullYear now \<le> 9999" "getMonth now < 12"
    "getDate now < 100" "getHours now < 100" "getMinutes now < 100"
  shows "timestamp now =
     fixedWidth 4 (getFullYear now) @ fixedWidth 2 (getMonth now + 1)
     @ fixedWidth 2 (getDate now) @ ''_''
     @ fixedWidth 2 (getHours now) @ fixedWidth 2 (getMinutes now)"
  using assms by (simp add: timestamp_def numberToString_4 padStart_2)

lemma underscore_no_space: "\<not> isSpace (CHR ''_'')"
  by (simp add: isSpace_def)

lemma replaceSpaces_no_space: "\<forall>c\<in>set (replaceSpaces s). \<not> isSpace c"
proof (induction s rule: replaceSpaces.induct)
  case 1
  show ?case by simp
next
  case (2 c cs)
  show ?case
  proof (cases "isSpace c")
    case True
    then have "replaceSpaces (c # cs) = CHR ''_'' # replaceSpaces (dropWhile isSpace cs)"
      by simp
    with "2.IH"(1) [OF True] underscore_no_space show ?thesis
      by (simp del: replaceSpaces.simps)
  next
    case False
    then have "replaceSpaces (c # cs) = c # replaceSpaces cs" by simp
    with "2.IH"(2) [OF False] False show ?thesis
      by (simp del: replaceSpaces.simps)
  qed
qed

lemma replaceSpaces_single:
  "(\<forall>i. Suc i < length s \<longrightarrow> \<not> (isSpace (s ! i) \<and> isSpace (s ! Suc i))) \<Longrightarrow>
   replaceSpaces s = map (\<lambda>c. if isSpace c then CHR ''_'' else c) s"
proof (induction s rule: replaceSpaces.induct)
  case 1
  then show ?case by simp
next
  case (2 c cs)
  have tl: "\<forall>i. Suc i < length cs \<longrightarrow> \<not> (isSpace (cs ! i) \<and> isSpace (cs ! Suc i))"
  proof (intro allI impI)
    fix i assume "Suc i < length cs"
    then show "\<not> (isSpace (cs ! i) \<and> isSpace (cs ! Suc i))"
      using "2.prems" [THEN spec, of "Suc i"] by simp
  qed
  show ?case
  proof (cases "isSpace c")
    case True
    have "dropWhile isSpace cs = cs"
    proof (cases cs)
      case Nil
      then show ?thesis by simp
    next
      case (Cons x xs)
      with "2.prems" [THEN spec, of 0] True have "\<not> isSpace x" by simp
      with Cons show ?thesis by simp
    qed
    with True "2.IH"(1) tl show ?thesis by simp
  next
    case False
    with "2.IH"(2) tl show ?thesis by simp
  qed
qed

lemma find_id: "find (\<lambda>s. Some (id' s) = a) shs = Some sh \<Longrightarrow> a = Some (id' sh) \<and> sh \<in> set shs"
  by (auto simp: find_Some_iff)

text \<open>
  The handler by itself, on the list and the selection it holds. When it finds the
  selected shot in its list, the file name is the shot's name with every run of white
  space replaced by an underscore (so it has no white space, and for a name without
  adjacent white space each white-space character becomes one underscore), then
  \<open>_Take\<close> and the shot's take counter in decimal; in the list of the state, the
  shots with that identifier get their counter incremented by one and all other shots
  are unchanged. When it finds none the name is \<open>A6000_REC_\<close> and the time stamp,
  which for a four-digit year is \<open>YYYYMMDD_HHMM\<close>, and the list is unchanged. The shot
  \<open>Intro Scene\<close> at take 1 gives \<open>Intro_Scene_Take1\<close> and take 2.
\<close>

lemma onstop_filename:
  "(find (\<lambda>s. Some (id' s) = sel) shs = Some activeShot \<longrightarrow>
      sel = Some (id' activeShot) \<and> activeShot \<in> set shs
      \<and> fst (onstop shs sel now prev)
          = replaceSpaces (name activeShot) @ ''_Take'' @ numberToString (take' activeShot)
      \<and> snd (onstop shs sel now prev)
          = map (\<lambda>s. if id' s = id' activeShot then s\<lparr>take' := take' s + 1\<rparr> else s) prev)
   \<and> (\<forall>c\<in>set (replaceSpaces n). \<not> isSpace c)
   \<and> ((\<forall>i. Suc i < length n \<longrightarrow> \<not> (isSpace (n ! i) \<and> isSpace (n ! Suc i))) \<longrightarrow>
        replaceSpaces n = map (\<lambda>c. if isSpace c then CHR ''_'' else c) n)
   \<and> (find (\<lambda>s. Some (id' s) = sel) shs = None \<longrightarrow>
        onstop shs sel now prev = (''A6000_REC_'' @ timestamp now, prev))
   \<and> (1000 \<le> getFullYear now \<and> getFullYear now \<le> 9999 \<and> getMonth now < 12
        \<and> getDate now < 100 \<and> getHours now < 100 \<and> getMinutes now < 100 \<longrightarrow>
        timestamp now =
          fixedWidth 4 (getFullYear now) @ fixedWidth 2 (getMonth now + 1)
          @ fixedWidth 2 (getDate now) @ ''_''
          @ fixedWidth 2 (getHours now) @ fixedWidth 2 (getMinutes now))
   \<and> onstop [\<lparr>id' = ''17'', name = ''Intro Scene'', completed = False, take' = 1\<rparr>]
        (Some ''17'') now
        [\<lparr>id' = ''17'', name = ''Intro Scene'', completed = False, take' = 1\<rparr>]
      = (''Intro_Scene_Take1'',
         [\<lparr>id' = ''17'', name = ''Intro Scene'', completed = False, take' = 2\<rparr>])"
proof -
  have ex: "onstop [\<lparr>id' = ''17'', name = ''Intro Scene'', completed = False, take' = 1\<rparr>]
        (Some ''17'') now
        [\<lparr>id' = ''17'', name = ''Intro Scene'', completed = False, take' = 1\<rparr>]
      = (''Intro_Scene_Take1'',
         [\<lparr>id' = ''17'', name = ''Intro Scene'', completed = False, take' = 2\<rparr>])"
    by (simp add: onstop_def isSpace_def numberToString_digit digitChar_def)
  have sel: "find (\<lambda>s. Some (id' s) = sel) shs = Some activeShot \<longrightarrow>
      sel = Some (id' activeShot) \<and> activeShot \<in> set shs
      \<and> fst (onstop shs sel now prev)
          = replaceSpaces (name activeShot) @ ''_Take'' @ numberToString (take' activeShot)
      \<and> snd (onstop shs sel now prev)
          = map (\<lambda>s. if id' s = id' activeShot then s\<lparr>take' := take' s + 1\<rparr> else s) prev"
    using find_id [of sel shs activeShot] by (simp add: onstop_def)
  have nosel: "find (\<lambda>s. Some (id' s) = sel) shs = None \<longrightarrow>
        onstop shs sel now prev = (''A6000_REC_'' @ timestamp now, prev)"
    by (simp add: onstop_def)
  have ts: "1000 \<le> getFullYear now \<and> getFullYear now \<le> 9999 \<and> getMonth now < 12
        \<and> getDate now < 100 \<and> getHours now < 100 \<and> getMinutes now < 100 \<longrightarrow>
        timestamp now =
          fixedWidth 4 (getFullYear now) @ fixedWidth 2 (getMonth now + 1)
          @ fixedWidth 2 (getDate now) @ ''_''
          @ fixedWidth 2 (getHours now) @ fixedWidth 2 (getMinutes now)"
    using timestamp_pattern [of now] by blast
  have single: "(\<forall>i. Suc i < length n \<longrightarrow> \<not> (isSpace (n ! i) \<and> isSpace (n ! Suc i))) \<longrightarrow>
        replaceSpaces n = map (\<lambda>c. if isSpace c then CHR ''_'' else c) n"
    using replaceSpaces_single [of n] by blast
  from sel replaceSpaces_no_space [of n] single nosel ts ex show ?thesis
    by (intro conjI)
qed


text \<open>Two shots with the second one selected, and a recording with no shot selected.\<close>

lemma onstop_filename_examples:
  "fst (onstop
         [\<lparr>id' = ''17'', name = ''Intro Scene'', completed = True, take' = 2\<rparr>,
          \<lparr>id' = ''18'', name = ''B roll'', completed = False, take' = 3\<rparr>]
         (Some ''18'')
         \<lparr>getFullYear = 2025, getMonth = 0, getDate = 5, getHours = 9, getMinutes = 30\<rparr>
         [\<lparr>id' = ''17'', name = ''Intro Scene'', completed = True, take' = 2\<rparr>,
          \<lparr>id' = ''18'', name = ''B roll'', completed = False, take' = 3\<rparr>])
     = ''B_roll_Take3''
   \<and> snd (onstop
         [\<lparr>id' = ''17'', name = ''Intro Scene'', completed = True, take' = 2\<rparr>,
          \<lparr>id' = ''18'', name = ''B roll'', completed = False, take' = 3\<rparr>]
         (Some ''18'')
         \<lparr>getFullYear = 2025, getMonth = 0, getDate = 5, getHours = 9, getMinutes = 30\<rparr>
         [\<lparr>id' = ''17'', name = ''Intro Scene'', completed = True, take' = 2\<rparr>,
          \<lparr>id' = ''18'', name = ''B roll'', completed = False, take' = 3\<rparr>])
     = [\<lparr>id' = ''17'', name = ''Intro Scene'', completed = True, take' = 2\<rparr>,
        \<lparr>id' = ''18'', name = ''B roll'', completed = False, take' = 4\<rparr>]
   \<and> replaceSpaces ''Intro Scene'' = ''Intro_Scene''
   \<and> onstop
         [\<lparr>id' = ''17'', name = ''Intro Scene'', completed = True, take' = 2\<rparr>]
         None
         \<lparr>getFullYear = 2025, getMonth = 0, getDate = 5, getHours = 9, getMinutes = 30\<rparr>
         [\<lparr>id' = ''17'', name = ''Intro Scene'', completed = True, take' = 2\<rparr>]
     = (''A6000_REC_20250105_0930'',
        [\<lparr>id' = ''17'', name = ''Intro Scene'', completed = True, take' = 2\<rparr>])"
proof -
  let ?a = "\<lparr>id' = ''17'', name = ''Intro Scene'', completed = True, take' = 2\<rparr>"
  let ?b = "\<lparr>id' = ''18'', name = ''B roll'', completed = False, take' = 3\<rparr>"
  let ?d = "\<lparr>getFullYear = 2025, getMonth = 0, getDate = 5, getHours = 9, getMinutes = 30\<rparr>"
  have sp: "replaceSpaces ''B roll'' = ''B_roll''" "replaceSpaces ''Intro Scene'' = ''Intro_Scene''"
    by (simp_all add: isSpace_def)
  note th = onstop_filename [of "Some ''18''" "[?a, ?b]" ?b ?d "[?a, ?b]" "''Intro Scene''"]
  note th' = onstop_filename [of None "[?a]" ?a ?d "[?a]" "''Intro Scene''"]
  have f: "find (\<lambda>s. Some (id' s) = Some ''18'') [?a, ?b] = Some ?b" by simp
  have g: "find (\<lambda>s. Some (id' s) = None) [?a] = None" by simp
  have h: "1000 \<le> getFullYear ?d \<and> getFullYear ?d \<le> 9999 \<and> getMonth ?d < 12
      \<and> getDate ?d < 100 \<and> getHours ?d < 100 \<and> getMinutes ?d < 100" by simp
  from th [THEN conjunct1, THEN mp, OF f]
  have 1: "fst (onstop [?a, ?b] (Some ''18'') ?d [?a, ?b])
        = replaceSpaces (name ?b) @ ''_Take'' @ numberToString (take' ?b)"
    and 2: "snd (onstop [?a, ?b] (Some ''18'') ?d [?a, ?b])
        = map (\<lambda>s. if id' s = id' ?b then s\<lparr>take' := take' s + 1\<rparr> else s) [?a, ?b]"
    by blast+
  from th' [THEN conjunct2, THEN conjunct2, THEN conjunct2, THEN conjunct1, THEN mp, OF g]
  have 3: "onstop [?a] None ?d [?a] = (''A6000_REC_'' @ timestamp ?d, [?a])" .
  from th' [THEN conjunct2, THEN conjunct2, THEN conjunct2, THEN conjunct2, THEN conjunct1,
      THEN mp, OF h]
  have 4: "timestamp ?d = ''20250105_0930''"
    by (simp add: fixedWidth_def upt_2 upt_4 digitChar_def)
  have n3: "numberToString 3 = ''3''" by (simp add: numberToString_digit digitChar_def)
  show ?thesis
    unfolding 1 2 3 4 by (simp add: n3 isSpace_def)
qed

text \<open>
  A recording that is stopped with the shot list and the selection as they were when it
  was started is named, and counted, as the naming policy says (for names without
  adjacent white space and a four-digit year).
\<close>

lemma stop_after_start:
  assumes names: "\<forall>x\<in>set (shots s). \<forall>i. Suc i < length (name x) \<longrightarrow>
                    \<not> (isSpace (name x ! i) \<and> isSpace (name x ! Suc i))"
    and date: "1000 \<le> getFullYear now \<and> getFullYear now \<le> 9999 \<and> getMonth now < 12
        \<and> getDate now < 100 \<and> getHours now < 100 \<and> getMinutes now < 100"
  shows "recorderStops now (startRecording_onstop s)
    = (spec_stop now s)\<lparr>recorderOnstop := Some (shots s, activeShotId s)\<rparr>"
proof (cases "find (\<lambda>x. Some (id' x) = activeShotId s) (shots s)")
  case None
  with timestamp_pattern [of now] date show ?thesis
    by (simp add: recorderStops_def startRecording_onstop_def spec_stop_def onstop_def)
next
  case (Some sh)
  then have "sh \<in> set (shots s)" by (auto simp: find_Some_iff)
  with names have "\<forall>i. Suc i < length (name sh) \<longrightarrow>
                    \<not> (isSpace (name sh ! i) \<and> isSpace (name sh ! Suc i))" by blast
  then have "replaceSpaces (name sh) = map (\<lambda>c. if isSpace c then CHR ''_'' else c) (name sh)"
    by (rule replaceSpaces_single)
  with Some show ?thesis
    by (simp add: recorderStops_def startRecording_onstop_def spec_stop_def onstop_def)
qed

text \<open>
  Claim C8, at an input where the selection changes during the recording. The shots
  \<open>Intro Scene\<close> (take 1) and \<open>B roll\<close> (take 3) are in the list and \<open>Intro Scene\<close>
  is selected when the recording starts; then \<open>B roll\<close> is clicked, and the recording
  stops. The selected shot is now \<open>B roll\<close>, so the policy names the file
  \<open>B_roll_Take3\<close> and takes the counter of \<open>B roll\<close> to 4. The handler still holds
  the selection of the render that started the recording: the file is
  \<open>Intro_Scene_Take1\<close>, the counter of \<open>Intro Scene\<close> goes to 2 and the one of
  \<open>B roll\<close> stays. When instead \<open>Intro Scene\<close> is deleted during the recording, no
  shot is selected at the stop and the policy gives \<open>A6000_REC_20250105_0930\<close>; the
  handler names the file after the deleted shot, and no counter changes.
\<close>

theorem recording_filename_stale:
  "recorderStops \<lparr>getFullYear = 2025, getMonth = 0, getDate = 5, getHours = 9, getMinutes = 30\<rparr>
     (setActiveShotId ''18''
       (startRecording_onstop
         \<lparr>shots = [\<lparr>id' = ''17'', name = ''Intro Scene'', completed = False, take' = 1\<rparr>,
                   \<lparr>id' = ''18'', name = ''B roll'', completed = False, take' = 3\<rparr>],
          activeShotId = Some ''17'', recorderOnstop = None, downloads = []\<rparr>))
   = \<lparr>shots = [\<lparr>id' = ''17'', name = ''Intro Scene'', completed = False, take' = 2\<rparr>,
               \<lparr>id' = ''18'', name = ''B roll'', completed = False, take' = 3\<rparr>],
      activeShotId = Some ''18'',
      recorderOnstop = Some ([\<lparr>id' = ''17'', name = ''Intro Scene'', completed = False, take' = 1\<rparr>,
                              \<lparr>id' = ''18'', name = ''B roll'', completed = False, take' = 3\<rparr>],
                             Some ''17''),
      downloads = [''Intro_Scene_Take1'']\<rparr>
   \<and> spec_stop \<lparr>getFullYear = 2025, getMonth = 0, getDate = 5, getHours = 9, getMinutes = 30\<rparr>
     (setActiveShotId ''18''
       (startRecording_onstop
         \<lparr>shots = [\<lparr>id' = ''17'', name = ''Intro Scene'', completed = False, take' = 1\<rparr>,
                   \<lparr>id' = ''18'', name = ''B roll'', completed = False, take' = 3\<rparr>],
          activeShotId = Some ''17'', recorderOnstop = None, downloads = []\<rparr>))
   = \<lparr>shots = [\<lparr>id' = ''17'', name = ''Intro Scene'', completed = False, take' = 1\<rparr>,
               \<lparr>id' = ''18'', name = ''B roll'', completed = False, take' = 4\<rparr>],
      activeShotId = Some ''18'',
      recorderOnstop = Some ([\<lparr>id' = ''17'', name = ''Intro Scene'', completed = False, take' = 1\<rparr>,
                              \<lparr>id' = ''18'', name = ''B roll'', completed = False, take' = 3\<rparr>],
                             Some ''17''),
      downloads = [''B_roll_Take3'']\<rparr>
   \<and> recorderStops \<lparr>getFullYear = 2025, getMonth = 0, getDate = 5, getHours = 9, getMinutes = 30\<rparr>
     (handleDeleteShot ''17''
       (startRecording_onstop
         \<lparr>shots = [\<lparr>id' = ''17'', name = ''Intro Scene'', completed = False, take' = 1\<rparr>,
                   \<lparr>id' = ''18'', name = ''B roll'', completed = False, take' = 3\<rparr>],
          activeShotId = Some ''17'', recorderOnstop = None, downloads = []\<rparr>))
   = \<lparr>shots = [\<lparr>id' = ''18'', name = ''B roll'', completed = False, take' = 3\<rparr>],
      activeShotId = None,
      recorderOnstop = Some ([\<lparr>id' = ''17'', name = ''Intro Scene'', completed = False, take' = 1\<rparr>,
                              \<lparr>id' = ''18'', name = ''B roll'', completed = False, take' = 3\<rparr>],
                             Some ''17''),
      downloads = [''Intro_Scene_Take1'']\<rparr>
   \<and> spec_stop \<lparr>getFullYear = 2025, getMonth = 0, getDate = 5, getHours = 9, getMinutes = 30\<rparr>
     (handleDeleteShot ''17''
       (startRecording_onstop
         \<lparr>shots = [\<lparr>id' = ''17'', name = ''Intro Scene'', completed = False, take' = 1\<rparr>,
                   \<lparr>id' = ''18'', name = ''B roll'', completed = False, take' = 3\<rparr>],
          activeShotId = Some ''17'', recorderOnstop = None, downloads = []\<rparr>))
   = \<lparr>shots = [\<lparr>id' = ''18'', name = ''B roll'', completed = False, take' = 3\<rparr>],
      activeShotId = None,
      recorderOnstop = Some ([\<lparr>id' = ''17'', name = ''Intro Scene'', completed = False, take' = 1\<rparr>,
                              \<lparr>id' = ''18'', name = ''B roll'', completed = False, take' = 3\<rparr>],
                             Some ''17''),
      downloads = [''A6000_REC_20250105_0930'']\<rparr>"
proof -
  have n: "numberToString (Suc 0) = ''1''" "numberToString 3 = ''3''"
    by (simp_all add: numberToString_digit digitChar_def)
  have sp: "replaceSpaces ''Intro Scene'' = ''Intro_Scene''" by (simp add: isSpace_def)
  have fw: "fixedWidth 4 2025 = ''2025''" "fixedWidth 2 (Suc 0) = ''01''" "fixedWidth 2 5 = ''05''"
    "fixedWidth 2 9 = ''09''" "fixedWidth 2 30 = ''30''"
    by (simp_all add: fixedWidth_def upt_2 upt_4 digitChar_def)
  show ?thesis
    by (simp add: recorderStops_def setActiveShotId_def handleDeleteShot_def
        startRecording_onstop_def spec_stop_def onstop_def n sp fw isSpace_def)
qed

lemma stopRecording_fields:
  "\<not> isRecording (stopRecording s)"
  "recordingTimerRef (stopRecording s) = None"
  "mediaRecorderRef (stopRecording s) \<noteq> Some Recording"
  "mediaRecorderRef (stopRecording s) \<noteq> Some Paused"
  "alerts (stopRecording s) = alerts s"
  "console (stopRecording s) = console s"
  by (auto simp: stopRecording_def Let_def split: option.splits)

lemma stopRecording_interval:
  "recordingTimerRef s = Some t \<Longrightarrow> t \<notin> set (intervals (stopRecording s))"
  by (auto simp: stopRecording_def Let_def split: option.splits)

lemma stopRecording_console:
  "stopRecording (s\<lparr>console := c\<rparr>) = (stopRecording s)\<lparr>console := c\<rparr>"
  by (auto simp: stopRecording_def Let_def split: option.splits)

text \<open>
  Claim C9, as the code has it. After a recorder error the recorder is not recording, the
  recording flag is cleared, the ref of the duration timer is empty and its interval is
  cancelled: the state is the one a stop by the user gives, apart from one line written
  to the console. No alert is raised.
\<close>

theorem recorder_error_stops:
  "mediaRecorderRef (onerror ev s) \<noteq> Some Recording
   \<and> mediaRecorderRef (onerror ev s) \<noteq> Some Paused
   \<and> \<not> isRecording (onerror ev s)
   \<and> recordingTimerRef (onerror ev s) = None
   \<and> (\<forall>t. recordingTimerRef s = Some t \<longrightarrow> t \<notin> set (intervals (onerror ev s)))
   \<and> (isRecording s \<longrightarrow>
        onerror ev s
          = (handleToggleRecord startRecording s)\<lparr>console := console s @ [''Recorder error: '' @ ev]\<rparr>)
   \<and> console (onerror ev s) = console s @ [''Recorder error: '' @ ev]
   \<and> alerts (onerror ev s) = alerts s"
proof -
  have "t \<notin> set (intervals (onerror ev s))" if "recordingTimerRef s = Some t" for t
    using that stopRecording_interval [of "s\<lparr>console := console s @ [''Recorder error: '' @ ev]\<rparr>" t]
    by (simp add: onerror_def)
  then show ?thesis
    by (simp add: onerror_def stopRecording_fields stopRecording_console handleToggleRecord_def)
qed

text \<open>A recording with its duration timer running, stopped by an error and by the user.\<close>

theorem recorder_error_stops_witness:
  "onerror ''encoder''
     \<lparr>mediaRecorderRef = Some Recording, isRecording = True, recordingTimerRef = Some 7,
      intervals = [3, 7], console = [], alerts = []\<rparr>
   = \<lparr>mediaRecorderRef = Some Inactive, isRecording = False, recordingTimerRef = None,
      intervals = [3], console = [''Recorder error: encoder''], alerts = []\<rparr>
   \<and> handleToggleRecord (\<lambda>s. s)
     \<lparr>mediaRecorderRef = Some Recording, isRecording = True, recordingTimerRef = Some 7,
      intervals = [3, 7], console = [], alerts = []\<rparr>
   = \<lparr>mediaRecorderRef = Some Inactive, isRecording = False, recordingTimerRef = None,
      intervals = [3], console = [], alerts = []\<rparr>"
proof -
  let ?s = "\<lparr>mediaRecorderRef = Some Recording, isRecording = True, recordingTimerRef = Some 7,
      intervals = [3, 7], console = [], alerts = []\<rparr>"
  have u: "handleToggleRecord (\<lambda>s. s) ?s
      = \<lparr>mediaRecorderRef = Some Inactive, isRecording = False, recordingTimerRef = None,
         intervals = [3], console = [], alerts = []\<rparr>"
    by (simp add: handleToggleRecord_def stopRecording_def)
  from recorder_error_stops [of "''encoder''" ?s "\<lambda>s. s"]
  have "onerror ''encoder'' ?s
      = (handleToggleRecord (\<lambda>s. s) ?s)\<lparr>console := console ?s @ [''Recorder error: '' @ ''encoder'']\<rparr>"
    by simp
  with u show ?thesis by simp
qed

text \<open>
  Claim C9 as stated says that the error is shown to the user. After the error no alert
  has been raised, and apart from the console the state, from which the interface is
  drawn, is the state after a stop by the user.
\<close>

theorem recorder_error_not_shown:
  "alerts (onerror ''encoder''
     \<lparr>mediaRecorderRef = Some Recording, isRecording = True, recordingTimerRef = Some 7,
      intervals = [3, 7], console = [], alerts = []\<rparr>) = []
   \<and> (onerror ''encoder''
     \<lparr>mediaRecorderRef = Some Recording, isRecording = True, recordingTimerRef = Some 7,
      intervals = [3, 7], console = [], alerts = []\<rparr>)\<lparr>console := []\<rparr>
     = handleToggleRecord (\<lambda>s. s)
     \<lparr>mediaRecorderRef = Some Recording, isRecording = True, recordingTimerRef = Some 7,
      intervals = [3, 7], console = [], alerts = []\<rparr>"
  by (simp add: onerror_def handleToggleRecord_def stopRecording_def)

end
